theory Spec2Isabelle
  imports Main "HOL-Library.AList"
begin

section \<open>Data model of scripts/skill\_resolver.py\<close>

text \<open>
  A value of Python type \<open>Any\<close> that the resolver stores without looking into it
  (a parameter default, the prerequisites and performance blocks).
\<close>

datatype yaml =
    YNull
  | YBool bool
  | YInt int
  | YStr string
  | YList "yaml list"
  | YDict "(string \<times> yaml) list"

text \<open>The dataclasses, field by field; every field name carries its class as a prefix.\<close>

record ToolParameter =
  param_name :: string
  param_type :: string
  param_required :: bool
  param_default :: yaml
  param_description :: string

record ToolDefinition =
  tool_name :: string
  tool_category :: string
  tool_description :: string
  tool_command :: string
  tool_parameters :: "ToolParameter list"
  tool_examples :: "string list"
  tool_aliases :: "string list"

record SkillDependency =
  dep_name :: string
  dep_required :: bool
  dep_reason :: string
  dep_auto_load :: bool

record PackageDependency =
  pkg_name :: string
  pkg_version :: string
  pkg_install :: string

record EnvironmentRequirement =
  env_name :: string
  env_required :: bool
  env_description :: string

text \<open>
  \<open>SkillMeta.dependencies\<close> is a dict with the keys \<open>"skills"\<close>, \<open>"packages"\<close> and
  \<open>"environment"\<close>. Every reader goes through \<open>dependencies.get(key, [])\<close>, so a key that
  is absent and a key bound to the empty list are the same to the code: the record below
  holds the three lists, an absent key being the empty list.
\<close>

record Dependencies =
  deps_skills :: "SkillDependency list"
  deps_packages :: "PackageDependency list"
  deps_environment :: "EnvironmentRequirement list"

text \<open>
  The parsed frontmatter of a SKILL.md, as \<open>parse_frontmatter\<close> hands it to \<open>parse_skill\<close>:
  a dict in which every key may be absent (\<open>None\<close>). A value that is present has the
  type the dataclass of its field declares; the nested dicts of tools, parameters and
  dependencies are records of the same kind. A key that is present with the YAML null or
  with an item that is no dict, on which \<open>parse_skill\<close> raises a \<open>TypeError\<close> or an
  \<open>AttributeError\<close>, has no value in these records: what is proved of the loader is proved
  of well-typed frontmatter.
\<close>

record ParameterData =
  pd_name :: "string option"
  pd_type :: "string option"
  pd_required :: "bool option"
  pd_default :: "yaml option"
  pd_description :: "string option"

record ToolData =
  td_name :: "string option"
  td_category :: "string option"
  td_description :: "string option"
  td_command :: "string option"
  td_parameters :: "ParameterData list option"
  td_examples :: "string list option"
  td_aliases :: "string list option"

record SkillDependencyData =
  sdd_name :: "string option"
  sdd_required :: "bool option"
  sdd_reason :: "string option"
  sdd_auto_load :: "bool option"

record PackageData =
  pkd_name :: "string option"
  pkd_version :: "string option"
  pkd_install :: "string option"

record EnvironmentData =
  ed_name :: "string option"
  ed_required :: "bool option"
  ed_description :: "string option"

record DependenciesData =
  dd_skills :: "SkillDependencyData list option"
  dd_packages :: "PackageData list option"
  dd_environment :: "EnvironmentData list option"

text \<open>The value under \<open>"dependencies"\<close>: a dict, or anything else (\<open>isinstance(deps, dict)\<close>).\<close>

datatype dependencies_value =
    DepsDict DependenciesData
  | DepsNotDict yaml

record Frontmatter =
  fm_name :: "string option"
  fm_description :: "string option"
  fm_version :: "string option"
  fm_tools :: "ToolData list option"
  fm_dependencies :: "dependencies_value option"
  fm_prerequisites :: "yaml option"
  fm_performance :: "yaml option"

record SkillMeta =
  skill_name :: string
  skill_description :: string
  skill_version :: string
  skill_path :: string
  skill_tools :: "ToolDefinition list"
  skill_dependencies :: Dependencies
  skill_prerequisites :: yaml
  skill_performance :: yaml
  skill_raw_frontmatter :: Frontmatter

text \<open>
  The registry \<open>dict[str, SkillMeta]\<close>. A Python dict keeps its keys in insertion order
  and \<open>detect_circular_dependencies\<close> iterates over them, so the registry is an association
  list: \<open>name in skills\<close> is \<open>map_of skills name \<noteq> None\<close>, \<open>skills[name]\<close> is the value found.
\<close>

type_synonym registry = "(string \<times> SkillMeta) list"

text \<open>The exceptions the modelled functions can raise.\<close>

datatype py_error = KeyError string

section \<open>Dependency resolver: resolve\_skill\_dependencies\<close>

text \<open>
  What one call leaves behind: the tuple \<open>(order, missing)\<close> it returns, and the two sets
  \<open>resolved\<close> and \<open>unresolved\<close> it shares with its caller and mutates in place.
\<close>

type_synonym resolution = "string list \<times> string list \<times> string set \<times> string set"

text \<open>
  \<open>resolve\<close> is the body of \<open>resolve_skill_dependencies\<close> once the two sets exist;
  \<open>resolve_deps\<close> is its \<open>for dep in skill.dependencies.get("skills", [])\<close> loop, the
  lists returned by the recursive calls being appended in edge order
  (\<open>order.extend\<close>, \<open>missing.extend\<close>). \<open>unresolved.remove\<close> raises \<open>KeyError\<close> on a name that is
  not in the set.
\<close>

function resolve :: "string \<Rightarrow> registry \<Rightarrow> string set \<Rightarrow> string set \<Rightarrow> py_error + resolution"
  and resolve_deps :: "SkillDependency list \<Rightarrow> registry \<Rightarrow> string set \<Rightarrow> string set \<Rightarrow> py_error + resolution"
where
  "resolve name skills resolved unresolved =
    (if name \<in> unresolved
     then Inr ([], [''Circular dependency detected: '' @ name], resolved, unresolved)
     else if name \<in> resolved then Inr ([], [], resolved, unresolved)
     else case map_of skills name of
        None \<Rightarrow> Inr ([], [''Skill not found: '' @ name], resolved, unresolved)
      | Some skill \<Rightarrow>
         (case resolve_deps (deps_skills (skill_dependencies skill)) skills resolved
                 (insert name unresolved) of
            Inl e \<Rightarrow> Inl e
          | Inr (order, missing, resolved', unresolved') \<Rightarrow>
              if name \<in> unresolved'
              then Inr (order @ [name], missing, insert name resolved', unresolved' - {name})
              else Inl (KeyError name)))"
| "resolve_deps [] skills resolved unresolved = Inr ([], [], resolved, unresolved)"
| "resolve_deps (dep # deps) skills resolved unresolved =
    (if dep_required dep \<or> dep_auto_load dep then
       (case resolve (dep_name dep) skills resolved unresolved of
          Inl e \<Rightarrow> Inl e
        | Inr (dep_order, dep_missing, resolved1, unresolved1) \<Rightarrow>
           (case resolve_deps deps skills resolved1 unresolved1 of
              Inl e \<Rightarrow> Inl e
            | Inr (order, missing, resolved2, unresolved2) \<Rightarrow>
                Inr (dep_order @ order, dep_missing @ missing, resolved2, unresolved2)))
     else resolve_deps deps skills resolved unresolved)"
  by pat_completeness auto

text \<open>
  The loop hands the sets left by one call to the next one, so termination needs to know
  what a call that returns leaves in \<open>unresolved\<close>: exactly what it found there.
\<close>

lemma resolve_unresolved_dom:
  "resolve_resolve_deps_dom (Inl (name, skills, resolved, unresolved)) \<Longrightarrow>
     resolve name skills resolved unresolved = Inr (ord, miss, r', u') \<Longrightarrow> u' = unresolved"
  "resolve_resolve_deps_dom (Inr (deps, skills, resolved, unresolved)) \<Longrightarrow>
     resolve_deps deps skills resolved unresolved = Inr (ord, miss, r', u') \<Longrightarrow> u' = unresolved"
proof (induction name skills resolved unresolved and deps skills resolved unresolved
       arbitrary: ord miss r' u' and ord miss r' u' rule: resolve_resolve_deps.pinduct)
  case (1 name skills resolved unresolved)
  note eq = "1.prems"[unfolded resolve.psimps[OF "1.hyps"]]
  show ?case
  proof (cases "name \<in> unresolved \<or> name \<in> resolved")
    case True
    with eq show ?thesis by (auto split: if_splits)
  next
    case False
    show ?thesis
    proof (cases "map_of skills name")
      case None
      with False eq show ?thesis by simp
    next
      case (Some skill)
      with False eq obtain ord0 miss0 r0 u0 where
        deps: "resolve_deps (deps_skills (skill_dependencies skill)) skills resolved
                 (insert name unresolved) = Inr (ord0, miss0, r0, u0)"
        by (auto split: sum.splits)
      from False Some deps have "u0 = insert name unresolved"
        using "1.IH"[of skill ord0 miss0 r0 u0] by simp
      with False Some deps eq show ?thesis by (auto split: if_splits)
    qed
  qed
next
  case (2 skills resolved unresolved)
  then show ?case by (simp add: resolve_deps.psimps)
next
  case (3 dep deps skills resolved unresolved)
  note eq = "3.prems"[unfolded resolve_deps.psimps(2)[OF "3.hyps"]]
  show ?case
  proof (cases "dep_required dep \<or> dep_auto_load dep")
    case True
    with eq obtain o1 m1 r1 u1 where
      c1: "resolve (dep_name dep) skills resolved unresolved = Inr (o1, m1, r1, u1)"
      by (auto split: sum.splits)
    with True eq obtain o2 m2 r2 u2 where
      c2: "resolve_deps deps skills r1 u1 = Inr (o2, m2, r2, u2)"
      by (auto split: sum.splits)
    from True c1 have "u1 = unresolved" by (rule "3.IH"(1))
    moreover from True c1 c2 have "u2 = u1"
      using "3.IH"(2)[of "(o1, m1, r1, u1)" o1 "(m1, r1, u1)" m1 "(r1, u1)" r1 u1 o2 m2 r2 u2]
      by simp
    moreover from True c1 c2 eq have "u' = u2" by simp
    ultimately show ?thesis by simp
  next
    case False
    with eq show ?thesis using "3.IH"(3) by simp
  qed
qed

lemma card_keys_insert_less:
  assumes "map_of skills name = Some v" and "name \<notin> U"
  shows "card (fst ` set skills - insert name U) < card (fst ` set skills - U)"
proof -
  from assms(1) have "name \<in> fst ` set skills"
    by (metis map_of_SomeD fst_conv image_eqI)
  with assms(2) have "fst ` set skills - insert name U \<subset> fst ` set skills - U"
    by auto
  then show ?thesis
    by (intro psubset_card_mono) auto
qed

text \<open>
  Every nested call either puts one more registry key on the stack \<open>unresolved\<close>, or
  works on a shorter rest of the same edge list with the same stack.
\<close>

lemma resolve_all_dom: "All resolve_resolve_deps_dom"
proof (relation "measures
    [\<lambda>x. case x of Inl (n, s, r, u) \<Rightarrow> card (fst ` set s - u)
                 | Inr (ds, s, r, u) \<Rightarrow> card (fst ` set s - u),
     \<lambda>x. case x of Inl _ \<Rightarrow> 0 | Inr (ds, s, r, u) \<Rightarrow> Suc (length ds)]", goal_cases)
  case 1
  show ?case by simp
next
  case (2 name skills resolved unresolved x2)
  then show ?case by (simp add: card_keys_insert_less)
next
  case 3
  then show ?case by simp
next
  case (4 dep deps skills resolved unresolved b x y xa ya xb yb)
  then have "yb = unresolved"
    using resolve_unresolved_dom(1)[of "dep_name dep" skills resolved unresolved x xa xb yb]
    by auto
  then show ?case by simp
next
  case 5
  then show ?case by simp
qed

termination resolve
  by (rule resolve_all_dom)

text \<open>
  The public call \<open>resolve_skill_dependencies(skill_name, skills)\<close>: both sets default to
  \<open>None\<close> and are created empty; the caller sees the tuple \<open>(order, missing)\<close>.
\<close>

definition resolve_skill_dependencies :: "string \<Rightarrow> registry \<Rightarrow> py_error + (string list \<times> string list)" where
  "resolve_skill_dependencies name skills =
     (case resolve name skills {} {} of
        Inl e \<Rightarrow> Inl e
      | Inr (order, missing, resolved, unresolved) \<Rightarrow> Inr (order, missing))"

declare resolve.simps [simp del]

subsection \<open>What every call returns\<close>

text \<open>The keys of the registry.\<close>

definition registry_keys :: "registry \<Rightarrow> string set" where
  "registry_keys skills = fst ` set skills"

lemma map_of_Some_keys: "map_of skills name = Some v \<Longrightarrow> name \<in> registry_keys skills"
  unfolding registry_keys_def by (metis map_of_SomeD fst_conv image_eqI)

lemma map_of_keys_iff: "name \<in> registry_keys skills \<longleftrightarrow> map_of skills name \<noteq> None"
  unfolding registry_keys_def by (simp add: map_of_eq_None_iff)

text \<open>
  A call that finds the sets \<open>R\<close> (resolved) and \<open>U\<close> (unresolved) returns normally, leaves
  \<open>U\<close> as it found it, adds to \<open>R\<close> exactly the names it put into the order, and puts
  a name into the order at most once, only if it is a key of the registry that was neither
  resolved nor on the stack.
\<close>

definition well_shaped :: "registry \<Rightarrow> string set \<Rightarrow> string set \<Rightarrow> py_error + resolution \<Rightarrow> bool" where
  "well_shaped skills R U res =
     (\<exists>ord miss. res = Inr (ord, miss, R \<union> set ord, U) \<and> distinct ord \<and>
        set ord \<inter> (R \<union> U) = {} \<and> set ord \<subseteq> registry_keys skills)"

lemma resolve_shape:
  "well_shaped skills R U (resolve name skills R U)"
  "well_shaped skills R U (resolve_deps deps skills R U)"
proof (induction name skills R U and deps skills R U rule: resolve_resolve_deps.induct)
  case (1 name skills R U)
  show ?case
  proof (cases "name \<in> U \<or> name \<in> R")
    case True
    then show ?thesis by (auto simp: resolve.simps well_shaped_def)
  next
    case False
    show ?thesis
    proof (cases "map_of skills name")
      case None
      with False show ?thesis by (simp add: resolve.simps well_shaped_def)
    next
      case (Some skill)
      from False Some have "well_shaped skills R (insert name U)
          (resolve_deps (deps_skills (skill_dependencies skill)) skills R (insert name U))"
        using "1.IH"[of skill] by simp
      then obtain ord miss where
        r: "resolve_deps (deps_skills (skill_dependencies skill)) skills R (insert name U)
              = Inr (ord, miss, R \<union> set ord, insert name U)"
        and d: "distinct ord" and i: "set ord \<inter> (R \<union> insert name U) = {}"
        and k: "set ord \<subseteq> registry_keys skills"
        unfolding well_shaped_def by blast
      from False Some r have
        "resolve name skills R U = Inr (ord @ [name], miss, insert name (R \<union> set ord), insert name U - {name})"
        by (simp add: resolve.simps)
      moreover from False have "insert name U - {name} = U" by auto
      moreover have "insert name (R \<union> set ord) = R \<union> set (ord @ [name])" by auto
      moreover from d i have "distinct (ord @ [name])" by auto
      moreover from i False have "set (ord @ [name]) \<inter> (R \<union> U) = {}" by auto
      moreover from k Some have "set (ord @ [name]) \<subseteq> registry_keys skills"
        by (auto dest: map_of_Some_keys)
      ultimately show ?thesis unfolding well_shaped_def by metis
    qed
  qed
next
  case (2 skills R U)
  show ?case by (simp add: well_shaped_def)
next
  case (3 dep deps skills R U)
  show ?case
  proof (cases "dep_required dep \<or> dep_auto_load dep")
    case False
    with "3.IH"(3) show ?thesis by simp
  next
    case True
    from "3.IH"(1)[OF True] obtain o1 m1 where
      r1: "resolve (dep_name dep) skills R U = Inr (o1, m1, R \<union> set o1, U)"
      and d1: "distinct o1" and i1: "set o1 \<inter> (R \<union> U) = {}"
      and k1: "set o1 \<subseteq> registry_keys skills"
      unfolding well_shaped_def by blast
    from "3.IH"(2)[OF True r1 refl refl refl] obtain o2 m2 where
      r2: "resolve_deps deps skills (R \<union> set o1) U = Inr (o2, m2, R \<union> set o1 \<union> set o2, U)"
      and d2: "distinct o2" and i2: "set o2 \<inter> (R \<union> set o1 \<union> U) = {}"
      and k2: "set o2 \<subseteq> registry_keys skills"
      unfolding well_shaped_def by blast
    from True r1 r2 have
      "resolve_deps (dep # deps) skills R U = Inr (o1 @ o2, m1 @ m2, R \<union> set o1 \<union> set o2, U)"
      by simp
    moreover have "R \<union> set o1 \<union> set o2 = R \<union> set (o1 @ o2)" by auto
    moreover from d1 d2 i2 have "distinct (o1 @ o2)" by auto
    moreover from i1 i2 have "set (o1 @ o2) \<inter> (R \<union> U) = {}" by auto
    moreover from k1 k2 have "set (o1 @ o2) \<subseteq> registry_keys skills" by auto
    ultimately show ?thesis unfolding well_shaped_def by metis
  qed
qed

subsection \<open>Edges the resolver follows\<close>

text \<open>The test \<open>dep.required or dep.auto_load\<close> of the loop.\<close>

definition followed :: "SkillDependency \<Rightarrow> bool" where
  "followed d = (dep_required d \<or> dep_auto_load d)"

text \<open>The names a skill's followed edges point to, in declaration order.\<close>

definition followed_names :: "SkillMeta \<Rightarrow> string list" where
  "followed_names skill = map dep_name (filter followed (deps_skills (skill_dependencies skill)))"

text \<open>Edges and skills for concrete registries.\<close>

definition requires :: "string \<Rightarrow> SkillDependency" where
  "requires n = \<lparr>dep_name = n, dep_required = True, dep_reason = [], dep_auto_load = False\<rparr>"

definition auto_loads :: "string \<Rightarrow> SkillDependency" where
  "auto_loads n = \<lparr>dep_name = n, dep_required = False, dep_reason = [], dep_auto_load = True\<rparr>"

definition optional :: "string \<Rightarrow> SkillDependency" where
  "optional n = \<lparr>dep_name = n, dep_required = False, dep_reason = [], dep_auto_load = False\<rparr>"

definition empty_frontmatter :: Frontmatter where
  "empty_frontmatter = \<lparr>fm_name = None, fm_description = None, fm_version = None,
     fm_tools = None, fm_dependencies = None, fm_prerequisites = None, fm_performance = None\<rparr>"

definition example_skill :: "string \<Rightarrow> SkillDependency list \<Rightarrow> ToolDefinition list \<Rightarrow> SkillMeta" where
  "example_skill n ds ts =
     \<lparr>skill_name = n, skill_description = ''An example skill'', skill_version = ''1.0.0'',
      skill_path = ''skills/'' @ n, skill_tools = ts,
      skill_dependencies = \<lparr>deps_skills = ds, deps_packages = [], deps_environment = []\<rparr>,
      skill_prerequisites = YDict [], skill_performance = YDict [],
      skill_raw_frontmatter = empty_frontmatter\<rparr>"

text \<open>The loop skips every other edge, and of a followed edge it reads the name only.\<close>

lemma resolve_deps_names:
  "resolve_deps ds skills R U = resolve_deps (map requires (map dep_name (filter followed ds))) skills R U"
proof (induction ds arbitrary: R U)
  case Nil
  show ?case by simp
next
  case (Cons d ds)
  show ?case
  proof (cases "followed d")
    case True
    then show ?thesis
      by (simp add: followed_def requires_def Cons.IH split: sum.splits prod.splits)
  next
    case False
    then show ?thesis using Cons.IH by (simp add: followed_def)
  qed
qed

lemma resolve_deps_Nil_names:
  "map dep_name (filter followed ds) = [] \<Longrightarrow> resolve_deps ds skills R U = Inr ([], [], R, U)"
  by (subst resolve_deps_names) simp

lemma resolve_deps_Cons_names:
  "map dep_name (filter followed ds) = n # ns \<Longrightarrow>
   resolve_deps ds skills R U =
     (case resolve n skills R U of
        Inl e \<Rightarrow> Inl e
      | Inr (dep_order, dep_missing, resolved1, unresolved1) \<Rightarrow>
         (case resolve_deps (map requires ns) skills resolved1 unresolved1 of
            Inl e \<Rightarrow> Inl e
          | Inr (order, missing, resolved2, unresolved2) \<Rightarrow>
              Inr (dep_order @ order, dep_missing @ missing, resolved2, unresolved2)))"
  by (subst resolve_deps_names) (simp add: requires_def)

subsection \<open>Dangling references\<close>

definition dangling_registry :: registry where
  "dangling_registry = [(''A'', example_skill ''A'' [requires ''C'', optional ''B''] [])]"

text \<open>
  C4. A skill \<open>a\<close> of the registry whose only followed edge is a required edge to a name
  \<open>c\<close> that is not a key of the registry resolves to the order \<open>[a]\<close> and the missing list
  \<open>["Skill not found: c"]\<close>: the dangling reference is reported and \<open>a\<close> is still placed.
\<close>

theorem dangling_reference:
  assumes "map_of skills a = Some skill"
    and "filter followed (deps_skills (skill_dependencies skill)) = [d]"
    and "dep_required d" and "dep_name d = c"
    and "map_of skills c = None"
  shows "resolve_skill_dependencies a skills = Inr ([a], [''Skill not found: '' @ c])"
proof -
  from assms(1,5) have ne: "c \<noteq> a" by auto
  have c: "resolve c skills {} {a} = Inr ([], [''Skill not found: '' @ c], {}, {a})"
    using ne assms(5) by (simp add: resolve.simps)
  have "map dep_name (filter followed (deps_skills (skill_dependencies skill))) = [c]"
    using assms(2,4) by simp
  then have "resolve_deps (deps_skills (skill_dependencies skill)) skills {} {a}
      = Inr ([], [''Skill not found: '' @ c], {}, {a})"
    by (simp add: resolve_deps_Cons_names c)
  with assms(1) have "resolve a skills {} {} = Inr ([a], [''Skill not found: '' @ c], {a}, {})"
    by (simp add: resolve.simps)
  then show ?thesis by (simp add: resolve_skill_dependencies_def)
qed

theorem dangling_reference_witness:
  "map_of dangling_registry ''A'' = Some (example_skill ''A'' [requires ''C'', optional ''B''] [])
   \<and> map_of dangling_registry ''C'' = None
   \<and> resolve_skill_dependencies ''A'' dangling_registry = Inr ([''A''], [''Skill not found: C''])"
  using dangling_reference[of dangling_registry "''A''"
      "example_skill ''A'' [requires ''C'', optional ''B''] []" "requires ''C''" "''C''"]
  by (simp add: dangling_registry_def example_skill_def requires_def optional_def followed_def)

subsection \<open>Cycles and termination\<close>

text \<open>
  A followed edge of the loop whose target is on the stack \<open>U\<close> leaves its message in the
  missing list of the loop, wherever the edge stands in the list.
\<close>

lemma circular_reported:
  assumes "d \<in> set ds" and "followed d" and "dep_name d \<in> U"
    and "resolve_deps ds skills R U = Inr (ord, miss, R', U')"
  shows "(''Circular dependency detected: '' @ dep_name d) \<in> set miss"
  using assms
proof (induction ds arbitrary: R ord miss R' U')
  case Nil
  then show ?case by simp
next
  case (Cons e es)
  show ?case
  proof (cases "followed e")
    case False
    with Cons.prems have "d \<in> set es" and "resolve_deps es skills R U = Inr (ord, miss, R', U')"
      by (auto simp: followed_def)
    then show ?thesis using Cons.IH Cons.prems(2,3) by blast
  next
    case True
    from resolve_shape(1)[of skills R U "dep_name e"] obtain o1 m1 where
      r1: "resolve (dep_name e) skills R U = Inr (o1, m1, R \<union> set o1, U)"
      unfolding well_shaped_def by blast
    from resolve_shape(2)[of skills "R \<union> set o1" U es] obtain o2 m2 where
      r2: "resolve_deps es skills (R \<union> set o1) U = Inr (o2, m2, R \<union> set o1 \<union> set o2, U)"
      unfolding well_shaped_def by blast
    from True r1 r2 Cons.prems(4) have miss: "miss = m1 @ m2"
      by (simp add: followed_def)
    show ?thesis
    proof (cases "d = e")
      case True
      with Cons.prems(3) have "resolve (dep_name e) skills R U
          = Inr ([], [''Circular dependency detected: '' @ dep_name d], R, U)"
        by (simp add: resolve.simps)
      with r1 have "m1 = [''Circular dependency detected: '' @ dep_name d]" by simp
      with miss show ?thesis by simp
    next
      case False
      with Cons.prems(1) have "d \<in> set es" by simp
      from Cons.IH[OF this Cons.prems(2,3) r2] miss show ?thesis by simp
    qed
  qed
qed

definition self_registry :: registry where
  "self_registry = [(''A'', example_skill ''A'' [requires ''A''] [])]"

text \<open>
  C5. The recursion of \<open>resolve_skill_dependencies\<close> is well-founded on every input (the
  registry is a finite list; the dependency graph may contain cycles), the call returns a
  pair \<open>(order, missing)\<close> and raises nothing, and when the skill has a required edge to
  itself the missing list contains \<open>"Circular dependency detected: <name>"\<close>.
\<close>

theorem resolve_terminates:
  "resolve_resolve_deps_dom (Inl (name, skills, resolved, unresolved)) \<and>
   (\<exists>order missing. resolve_skill_dependencies name skills = Inr (order, missing) \<and>
      ((\<exists>skill d. map_of skills name = Some skill \<and> d \<in> set (deps_skills (skill_dependencies skill))
           \<and> dep_required d \<and> dep_name d = name)
       \<longrightarrow> (''Circular dependency detected: '' @ name) \<in> set missing))"
proof -
  have dom: "resolve_resolve_deps_dom (Inl (name, skills, resolved, unresolved))"
    using resolve_all_dom by blast
  from resolve_shape(1)[of skills "{}" "{}" name] obtain order missing where
    r: "resolve name skills {} {} = Inr (order, missing, {} \<union> set order, {})"
    unfolding well_shaped_def by blast
  then have top: "resolve_skill_dependencies name skills = Inr (order, missing)"
    by (simp add: resolve_skill_dependencies_def)
  have "(''Circular dependency detected: '' @ name) \<in> set missing"
    if self: "map_of skills name = Some skill" "d \<in> set (deps_skills (skill_dependencies skill))"
      "dep_required d" "dep_name d = name" for skill d
  proof -
    from resolve_shape(2)[of skills "{}" "{name}" "deps_skills (skill_dependencies skill)"]
    obtain o1 m1 where
      r1: "resolve_deps (deps_skills (skill_dependencies skill)) skills {} {name}
            = Inr (o1, m1, {} \<union> set o1, {name})"
      unfolding well_shaped_def by blast
    from self(3) have "followed d" by (simp add: followed_def)
    with circular_reported[OF self(2) _ _ r1] self(4)
    have "(''Circular dependency detected: '' @ name) \<in> set m1" by simp
    moreover from self(1) r1 r have "missing = m1" by (simp add: resolve.simps)
    ultimately show ?thesis by simp
  qed
  with dom top show ?thesis by blast
qed

theorem resolve_terminates_witness:
  "(\<exists>skill d. map_of self_registry ''A'' = Some skill \<and> d \<in> set (deps_skills (skill_dependencies skill))
       \<and> dep_required d \<and> dep_name d = ''A'')
   \<and> resolve_resolve_deps_dom (Inl (''A'', self_registry, {}, {}))
   \<and> (\<exists>order missing. resolve_skill_dependencies ''A'' self_registry = Inr (order, missing) \<and>
        ''Circular dependency detected: A'' \<in> set missing)"
proof -
  have h: "\<exists>skill d. map_of self_registry ''A'' = Some skill \<and> d \<in> set (deps_skills (skill_dependencies skill))
       \<and> dep_required d \<and> dep_name d = ''A''"
    by (simp add: self_registry_def example_skill_def requires_def)
  with resolve_terminates[of "''A''" self_registry "{}" "{}"] show ?thesis
    by simp
qed

subsection \<open>Positions in the order\<close>

text \<open>
  \<open>precedes x y xs\<close>: \<open>y\<close> stands in \<open>xs\<close> somewhere after the first \<open>x\<close>, that is, \<open>x\<close> is
  at a smaller index than \<open>y\<close>.
\<close>

fun precedes :: "'a \<Rightarrow> 'a \<Rightarrow> 'a list \<Rightarrow> bool" where
  "precedes x y [] = False"
| "precedes x y (z # zs) = (if z = x then y \<in> set zs else precedes x y zs)"

lemma precedes_iff_index:
  "precedes x y xs \<longleftrightarrow> (\<exists>i j. i < j \<and> j < length xs \<and> xs ! i = x \<and> xs ! j = y)"
proof (induction xs)
  case Nil
  show ?case by simp
next
  case (Cons z zs)
  show ?case
  proof (cases "z = x")
    case True
    have "y \<in> set zs \<longleftrightarrow> (\<exists>i j. i < j \<and> j < length (z # zs) \<and> (z # zs) ! i = x \<and> (z # zs) ! j = y)"
    proof
      assume "y \<in> set zs"
      then obtain k where "k < length zs" "zs ! k = y" by (auto simp: in_set_conv_nth)
      with True have "0 < Suc k \<and> Suc k < length (z # zs) \<and> (z # zs) ! 0 = x \<and> (z # zs) ! Suc k = y"
        by simp
      then show "\<exists>i j. i < j \<and> j < length (z # zs) \<and> (z # zs) ! i = x \<and> (z # zs) ! j = y"
        by blast
    next
      assume "\<exists>i j. i < j \<and> j < length (z # zs) \<and> (z # zs) ! i = x \<and> (z # zs) ! j = y"
      then obtain i j where ij: "i < j" "j < length (z # zs)" "(z # zs) ! j = y" by blast
      then obtain k where "j = Suc k" by (cases j) auto
      with ij show "y \<in> set zs" by auto
    qed
    with True show ?thesis by simp
  next
    case False
    have "(\<exists>i j. i < j \<and> j < length zs \<and> zs ! i = x \<and> zs ! j = y)
      \<longleftrightarrow> (\<exists>i j. i < j \<and> j < length (z # zs) \<and> (z # zs) ! i = x \<and> (z # zs) ! j = y)"
    proof
      assume "\<exists>i j. i < j \<and> j < length zs \<and> zs ! i = x \<and> zs ! j = y"
      then obtain i j where "i < j" "j < length zs" "zs ! i = x" "zs ! j = y" by blast
      then have "Suc i < Suc j \<and> Suc j < length (z # zs) \<and> (z # zs) ! Suc i = x \<and> (z # zs) ! Suc j = y"
        by simp
      then show "\<exists>i j. i < j \<and> j < length (z # zs) \<and> (z # zs) ! i = x \<and> (z # zs) ! j = y"
        by blast
    next
      assume "\<exists>i j. i < j \<and> j < length (z # zs) \<and> (z # zs) ! i = x \<and> (z # zs) ! j = y"
      then obtain i j where ij: "i < j" "j < length (z # zs)" "(z # zs) ! i = x" "(z # zs) ! j = y"
        by blast
      from ij(3) False obtain i' where i': "i = Suc i'" by (cases i) auto
      with ij(1) obtain j' where j': "j = Suc j'" by (cases j) auto
      from ij i' j' have "i' < j' \<and> j' < length zs \<and> zs ! i' = x \<and> zs ! j' = y" by simp
      then show "\<exists>i j. i < j \<and> j < length zs \<and> zs ! i = x \<and> zs ! j = y" by blast
    qed
    with False Cons.IH show ?thesis by simp
  qed
qed

lemma precedes_in_set: "precedes x y xs \<Longrightarrow> x \<in> set xs \<and> y \<in> set xs"
  by (induction xs) (auto split: if_splits)

lemma precedes_append:
  "precedes x y (as @ bs) =
     (if x \<in> set as then precedes x y as \<or> y \<in> set bs else precedes x y bs)"
  by (induction as) auto

lemma precedes_distinct_asym:
  "distinct xs \<Longrightarrow> precedes x y xs \<Longrightarrow> \<not> precedes y x xs"
  by (induction xs) (auto split: if_splits dest: precedes_in_set)

subsection \<open>The diamond\<close>

text \<open>
  A skill that is new to both sets, resolved when the names of its followed edges are known.
\<close>

lemma resolve_leaf:
  assumes "map_of skills n = Some skill" and "followed_names skill = []"
    and "n \<notin> U" and "n \<notin> R"
  shows "resolve n skills R U = Inr ([n], [], insert n R, U)"
proof -
  have "resolve_deps (deps_skills (skill_dependencies skill)) skills R (insert n U)
          = Inr ([], [], R, insert n U)"
    using assms(2) by (simp add: resolve_deps_Nil_names followed_names_def)
  moreover from assms(3) have "insert n U - {n} = U" by auto
  ultimately show ?thesis using assms by (simp add: resolve.simps)
qed

lemma resolve_node:
  assumes "map_of skills n = Some skill" and "n \<notin> U" and "n \<notin> R"
    and "resolve_deps (deps_skills (skill_dependencies skill)) skills R (insert n U)
           = Inr (ord, miss, R', insert n U)"
  shows "resolve n skills R U = Inr (ord @ [n], miss, insert n R', U)"
proof -
  from assms(2) have "insert n U - {n} = U" by auto
  with assms show ?thesis by (simp add: resolve.simps)
qed

lemma diamond_order:
  assumes dist: "distinct [a, b, c, d]"
    and a: "map_of skills a = Some sa" "followed_names sa = [b, c]"
    and b: "map_of skills b = Some sb" "followed_names sb = [d]"
    and c: "map_of skills c = Some sc" "followed_names sc = [d]"
    and d: "map_of skills d = Some sd" "followed_names sd = []"
  shows "resolve_skill_dependencies a skills = Inr ([d, b, c, a], [])"
proof -
  from dist have ne: "a \<noteq> b" "a \<noteq> c" "a \<noteq> d" "b \<noteq> a" "b \<noteq> c" "b \<noteq> d"
    "c \<noteq> a" "c \<noteq> b" "c \<noteq> d" "d \<noteq> a" "d \<noteq> b" "d \<noteq> c"
    by auto
  have d1: "resolve d skills {} {b, a} = Inr ([d], [], {d}, {b, a})"
    using ne d resolve_leaf[of skills d sd "{b, a}" "{}"] by simp
  have "resolve_deps (deps_skills (skill_dependencies sb)) skills {} {b, a}
          = Inr ([d], [], {d}, {b, a})"
    using b(2) d1 by (simp add: resolve_deps_Cons_names followed_names_def)
  then have b1: "resolve b skills {} {a} = Inr ([d, b], [], {b, d}, {a})"
    using ne b(1) resolve_node[of skills b sb "{a}" "{}" "[d]" "[]" "{d}"] by simp
  have d2: "resolve d skills {b, d} {c, a} = Inr ([], [], {b, d}, {c, a})"
    using ne by (simp add: resolve.simps)
  have "resolve_deps (deps_skills (skill_dependencies sc)) skills {b, d} {c, a}
          = Inr ([], [], {b, d}, {c, a})"
    using c(2) d2 by (simp add: resolve_deps_Cons_names followed_names_def)
  then have c1: "resolve c skills {b, d} {a} = Inr ([c], [], {c, b, d}, {a})"
    using ne c(1) resolve_node[of skills c sc "{a}" "{b, d}" "[]" "[]" "{b, d}"] by simp
  have "resolve_deps (deps_skills (skill_dependencies sa)) skills {} {a}
          = Inr ([d, b, c], [], {c, b, d}, {a})"
    using a(2) b1 c1
    by (simp add: resolve_deps_Cons_names requires_def followed_names_def)
  then have "resolve a skills {} {} = Inr ([d, b, c, a], [], {a, c, b, d}, {})"
    using a(1) resolve_node[of skills a sa "{}" "{}" "[d, b, c]" "[]" "{c, b, d}"] by simp
  then show ?thesis by (simp add: resolve_skill_dependencies_def)
qed

definition diamond_registry :: registry where
  "diamond_registry =
     [(''A'', example_skill ''A'' [requires ''B'', requires ''C''] []),
      (''B'', example_skill ''B'' [requires ''D''] []),
      (''C'', example_skill ''C'' [requires ''D''] []),
      (''D'', example_skill ''D'' [] [])]"

text \<open>
  C6. In a registry where \<open>a\<close> follows edges to \<open>b\<close> and \<open>c\<close> (declared in either order),
  \<open>b\<close> and \<open>c\<close> each follow one edge to \<open>d\<close>, and \<open>d\<close> follows none, resolving \<open>a\<close>
  returns an order in which \<open>d\<close> occurs exactly once, before \<open>b\<close> and before \<open>c\<close>, and
  \<open>b\<close> and \<open>c\<close> both occur before \<open>a\<close>; nothing is missing.
\<close>

theorem diamond_resolution:
  assumes "distinct [a, b, c, d]"
    and "map_of skills a = Some sa" and "followed_names sa = [b, c] \<or> followed_names sa = [c, b]"
    and "map_of skills b = Some sb" and "followed_names sb = [d]"
    and "map_of skills c = Some sc" and "followed_names sc = [d]"
    and "map_of skills d = Some sd" and "followed_names sd = []"
  shows "\<exists>order. resolve_skill_dependencies a skills = Inr (order, []) \<and>
           count_list order d = 1 \<and> precedes d b order \<and> precedes d c order \<and>
           precedes b a order \<and> precedes c a order"
proof -
  from assms(3) show ?thesis
  proof
    assume "followed_names sa = [b, c]"
    with assms have "resolve_skill_dependencies a skills = Inr ([d, b, c, a], [])"
      using diamond_order[of a b c d skills sa sb sc sd] by simp
    moreover from assms(1) have "count_list [d, b, c, a] d = 1 \<and> precedes d b [d, b, c, a] \<and>
        precedes d c [d, b, c, a] \<and> precedes b a [d, b, c, a] \<and> precedes c a [d, b, c, a]"
      by auto
    ultimately show ?thesis by blast
  next
    assume "followed_names sa = [c, b]"
    with assms have "resolve_skill_dependencies a skills = Inr ([d, c, b, a], [])"
      using diamond_order[of a c b d skills sa sc sb sd] by auto
    moreover from assms(1) have "count_list [d, c, b, a] d = 1 \<and> precedes d b [d, c, b, a] \<and>
        precedes d c [d, c, b, a] \<and> precedes b a [d, c, b, a] \<and> precedes c a [d, c, b, a]"
      by auto
    ultimately show ?thesis by blast
  qed
qed

theorem diamond_resolution_witness:
  "resolve_skill_dependencies ''A'' diamond_registry = Inr ([''D'', ''B'', ''C'', ''A''], []) \<and>
   (\<exists>order. resolve_skill_dependencies ''A'' diamond_registry = Inr (order, []) \<and>
      count_list order ''D'' = 1 \<and> precedes ''D'' ''B'' order \<and> precedes ''D'' ''C'' order \<and>
      precedes ''B'' ''A'' order \<and> precedes ''C'' ''A'' order)"
proof -
  have m: "map_of diamond_registry ''A'' = Some (example_skill ''A'' [requires ''B'', requires ''C''] [])"
    "map_of diamond_registry ''B'' = Some (example_skill ''B'' [requires ''D''] [])"
    "map_of diamond_registry ''C'' = Some (example_skill ''C'' [requires ''D''] [])"
    "map_of diamond_registry ''D'' = Some (example_skill ''D'' [] [])"
    by (simp_all add: diamond_registry_def)
  have f: "followed_names (example_skill ''A'' [requires ''B'', requires ''C''] []) = [''B'', ''C'']"
    "followed_names (example_skill ''B'' [requires ''D''] []) = [''D'']"
    "followed_names (example_skill ''C'' [requires ''D''] []) = [''D'']"
    "followed_names (example_skill ''D'' [] []) = []"
    by (simp_all add: followed_names_def example_skill_def requires_def followed_def)
  have dist: "distinct [''A'', ''B'', ''C'', ''D'']" by simp
  have e: "resolve_skill_dependencies ''A'' diamond_registry = Inr ([''D'', ''B'', ''C'', ''A''], [])"
    using diamond_order[OF dist m(1) f(1) m(2) f(2) m(3) f(3) m(4) f(4)] .
  from diamond_resolution[OF dist m(1) disjI1[OF f(1)] m(2) f(2) m(3) f(3) m(4) f(4)] e
  show ?thesis by blast
qed

subsection \<open>Topological order on acyclic registries\<close>

text \<open>
  The dependency graph restricted to the edges the resolver follows: an edge from every
  key of the registry to the target of each of its required or auto-load edges (the target
  may be absent from the registry).
\<close>

definition dep_edges :: "registry \<Rightarrow> (string \<times> string) set" where
  "dep_edges skills =
     {(s, t). \<exists>skill d. map_of skills s = Some skill \<and>
        d \<in> set (deps_skills (skill_dependencies skill)) \<and> followed d \<and> dep_name d = t}"

text \<open>A set of names that holds, with a name, every registered target of its edges.\<close>

definition deps_closed :: "registry \<Rightarrow> string set \<Rightarrow> bool" where
  "deps_closed skills R =
     (\<forall>s t. s \<in> R \<and> (s, t) \<in> dep_edges skills \<and> t \<in> registry_keys skills \<longrightarrow> t \<in> R)"

text \<open>
  For the edges \<open>E\<close> and the registered names \<open>K\<close>: every registered target of an edge of a
  name of \<open>ord\<close> was there before the call (is in \<open>R\<close>) or stands before that name in
  \<open>ord\<close>.
\<close>

definition ordered_after :: "('a \<times> 'a) set \<Rightarrow> 'a set \<Rightarrow> 'a set \<Rightarrow> 'a list \<Rightarrow> bool" where
  "ordered_after E K R ord =
     (\<forall>s t. s \<in> set ord \<and> (s, t) \<in> E \<and> t \<in> K \<longrightarrow> t \<in> R \<or> precedes t s ord)"

lemma dep_edgesI:
  "map_of skills s = Some skill \<Longrightarrow> d \<in> set (deps_skills (skill_dependencies skill)) \<Longrightarrow>
   followed d \<Longrightarrow> (s, dep_name d) \<in> dep_edges skills"
  unfolding dep_edges_def by blast

lemma ordered_after_append:
  assumes "ordered_after E K R o1" and "ordered_after E K (R \<union> set o1) o2"
    and "set o2 \<inter> (R \<union> set o1) = {}"
  shows "ordered_after E K R (o1 @ o2)"
  unfolding ordered_after_def
proof (intro allI impI)
  fix s t
  assume h: "s \<in> set (o1 @ o2) \<and> (s, t) \<in> E \<and> t \<in> K"
  show "t \<in> R \<or> precedes t s (o1 @ o2)"
  proof (cases "s \<in> set o1")
    case True
    with h assms(1) have "t \<in> R \<or> precedes t s o1" unfolding ordered_after_def by blast
    then show ?thesis by (auto simp: precedes_append dest: precedes_in_set)
  next
    case False
    with h have s2: "s \<in> set o2" by simp
    with h assms(2) have "t \<in> R \<or> t \<in> set o1 \<or> precedes t s o2"
      unfolding ordered_after_def by blast
    then show ?thesis
    proof (elim disjE)
      assume "t \<in> R" then show ?thesis by simp
    next
      assume "t \<in> set o1" with s2 show ?thesis by (simp add: precedes_append)
    next
      assume p: "precedes t s o2"
      then have "t \<in> set o2" by (simp add: precedes_in_set)
      with assms(3) have "t \<notin> set o1" by auto
      with p show ?thesis by (simp add: precedes_append)
    qed
  qed
qed

lemma ordered_after_snoc:
  assumes "ordered_after E K R ord" and "n \<notin> set ord"
    and "\<forall>t. (n, t) \<in> E \<and> t \<in> K \<longrightarrow> t \<in> R \<union> set ord"
  shows "ordered_after E K R (ord @ [n])"
  unfolding ordered_after_def
proof (intro allI impI)
  fix s t
  assume h: "s \<in> set (ord @ [n]) \<and> (s, t) \<in> E \<and> t \<in> K"
  show "t \<in> R \<or> precedes t s (ord @ [n])"
  proof (cases "s \<in> set ord")
    case True
    with h assms(1) have "t \<in> R \<or> precedes t s ord" unfolding ordered_after_def by blast
    then show ?thesis by (auto simp: precedes_append dest: precedes_in_set)
  next
    case False
    with h have "s = n" by simp
    with h assms(3) have "t \<in> R \<or> t \<in> set ord" by blast
    with \<open>s = n\<close> show ?thesis by (auto simp: precedes_append)
  qed
qed

text \<open>
  The invariant of the traversal on an acyclic graph. Every name on the stack \<open>U\<close> reaches
  the name being resolved, so that name is not on the stack; the resolved set stays closed
  under registered edge targets; and what a call appends is ordered after its targets.
\<close>

lemma resolve_topological:
  "acyclic (dep_edges skills) \<Longrightarrow> (\<forall>u\<in>U. (u, name) \<in> (dep_edges skills)\<^sup>+) \<Longrightarrow>
   deps_closed skills R \<Longrightarrow> resolve name skills R U = Inr (ord, miss, R', U') \<Longrightarrow>
   deps_closed skills R' \<and> (name \<in> registry_keys skills \<longrightarrow> name \<in> R') \<and> ordered_after (dep_edges skills) (registry_keys skills) R ord"
  "acyclic (dep_edges skills) \<Longrightarrow>
   (\<forall>d\<in>set ds. followed d \<longrightarrow> (\<forall>u\<in>U. (u, dep_name d) \<in> (dep_edges skills)\<^sup>+)) \<Longrightarrow>
   deps_closed skills R \<Longrightarrow> resolve_deps ds skills R U = Inr (ord, miss, R', U') \<Longrightarrow>
   deps_closed skills R' \<and>
   (\<forall>d\<in>set ds. followed d \<and> dep_name d \<in> registry_keys skills \<longrightarrow> dep_name d \<in> R') \<and>
   ordered_after (dep_edges skills) (registry_keys skills) R ord"
proof (induction name skills R U and ds skills R U arbitrary: ord miss R' U' and ord miss R' U'
       rule: resolve_resolve_deps.induct)
  case (1 name skills R U)
  note acyc = "1.prems"(1) and stack = "1.prems"(2) and closed = "1.prems"(3) and res = "1.prems"(4)
  have notU: "name \<notin> U"
  proof
    assume "name \<in> U"
    with stack have "(name, name) \<in> (dep_edges skills)\<^sup>+" by blast
    with acyc show False by (simp add: acyclic_def)
  qed
  show ?case
  proof (cases "name \<in> R")
    case True
    with notU res have "ord = []" "R' = R" by (simp_all add: resolve.simps)
    with closed True show ?thesis by (simp add: ordered_after_def)
  next
    case False
    show ?thesis
    proof (cases "map_of skills name")
      case None
      with notU False res have "ord = []" "R' = R" by (simp_all add: resolve.simps)
      moreover from None have "name \<notin> registry_keys skills" by (simp add: map_of_keys_iff)
      ultimately show ?thesis using closed by (simp add: ordered_after_def)
    next
      case (Some skill)
      let ?ds = "deps_skills (skill_dependencies skill)"
      from resolve_shape(2)[of skills R "insert name U" ?ds] obtain o0 m0 where
        r0: "resolve_deps ?ds skills R (insert name U) = Inr (o0, m0, R \<union> set o0, insert name U)"
        and i0: "set o0 \<inter> (R \<union> insert name U) = {}"
        unfolding well_shaped_def by blast
      have reach: "\<forall>d\<in>set ?ds. followed d \<longrightarrow>
          (\<forall>u\<in>insert name U. (u, dep_name d) \<in> (dep_edges skills)\<^sup>+)"
      proof (intro ballI impI)
        fix d u
        assume d: "d \<in> set ?ds" "followed d" and u: "u \<in> insert name U"
        from Some d have e: "(name, dep_name d) \<in> dep_edges skills" by (rule dep_edgesI)
        show "(u, dep_name d) \<in> (dep_edges skills)\<^sup>+"
        proof (cases "u = name")
          case True
          with e show ?thesis by blast
        next
          case False
          with u stack have "(u, name) \<in> (dep_edges skills)\<^sup>+" by blast
          with e show ?thesis by (meson trancl_into_trancl)
        qed
      qed
      from "1.IH"[OF notU False Some acyc reach closed r0]
      have c0: "deps_closed skills (R \<union> set o0)"
        and t0: "\<forall>d\<in>set ?ds. followed d \<and> dep_name d \<in> registry_keys skills \<longrightarrow> dep_name d \<in> R \<union> set o0"
        and a0: "ordered_after (dep_edges skills) (registry_keys skills) R o0"
        by blast+
      from notU False Some r0 res have ord: "ord = o0 @ [name]" and R': "R' = insert name (R \<union> set o0)"
        by (simp_all add: resolve.simps)
      have targets: "\<forall>t. (name, t) \<in> dep_edges skills \<and> t \<in> registry_keys skills \<longrightarrow> t \<in> R \<union> set o0"
        using t0 Some unfolding dep_edges_def by auto
      have "deps_closed skills R'"
        unfolding deps_closed_def R'
      proof (intro allI impI)
        fix s t
        assume h: "s \<in> insert name (R \<union> set o0) \<and> (s, t) \<in> dep_edges skills \<and> t \<in> registry_keys skills"
        show "t \<in> insert name (R \<union> set o0)"
        proof (cases "s = name")
          case True
          with h targets show ?thesis by blast
        next
          case False
          with h c0 show ?thesis unfolding deps_closed_def by blast
        qed
      qed
      moreover have "name \<in> R'" by (simp add: R')
      moreover from i0 have "name \<notin> set o0" by auto
      with a0 targets have "ordered_after (dep_edges skills) (registry_keys skills) R ord"
        unfolding ord by (intro ordered_after_snoc) auto
      ultimately show ?thesis by simp
    qed
  qed
next
  case (2 skills R U)
  then show ?case by (simp add: ordered_after_def)
next
  case (3 dep deps skills R U)
  note acyc = "3.prems"(1) and reach = "3.prems"(2) and closed = "3.prems"(3) and res = "3.prems"(4)
  show ?case
  proof (cases "dep_required dep \<or> dep_auto_load dep")
    case False
    with res have r: "resolve_deps deps skills R U = Inr (ord, miss, R', U')" by simp
    from reach have "\<forall>d\<in>set deps. followed d \<longrightarrow> (\<forall>u\<in>U. (u, dep_name d) \<in> (dep_edges skills)\<^sup>+)"
      by simp
    from "3.IH"(3)[OF False acyc this closed r] False show ?thesis
      by (simp add: followed_def)
  next
    case True
    from resolve_shape(1)[of skills R U "dep_name dep"] obtain o1 m1 where
      r1: "resolve (dep_name dep) skills R U = Inr (o1, m1, R \<union> set o1, U)"
      unfolding well_shaped_def by blast
    from resolve_shape(2)[of skills "R \<union> set o1" U deps] obtain o2 m2 where
      r2: "resolve_deps deps skills (R \<union> set o1) U = Inr (o2, m2, R \<union> set o1 \<union> set o2, U)"
      and i2: "set o2 \<inter> (R \<union> set o1 \<union> U) = {}"
      unfolding well_shaped_def by blast
    from True reach have stack: "\<forall>u\<in>U. (u, dep_name dep) \<in> (dep_edges skills)\<^sup>+"
      by (auto simp: followed_def)
    from "3.IH"(1)[OF True acyc stack closed r1]
    have c1: "deps_closed skills (R \<union> set o1)"
      and t1: "dep_name dep \<in> registry_keys skills \<longrightarrow> dep_name dep \<in> R \<union> set o1"
      and a1: "ordered_after (dep_edges skills) (registry_keys skills) R o1"
      by blast+
    from reach have reach': "\<forall>d\<in>set deps. followed d \<longrightarrow> (\<forall>u\<in>U. (u, dep_name d) \<in> (dep_edges skills)\<^sup>+)"
      by simp
    from "3.IH"(2)[OF True r1 refl refl refl acyc reach' c1 r2]
    have c2: "deps_closed skills (R \<union> set o1 \<union> set o2)"
      and t2: "\<forall>d\<in>set deps. followed d \<and> dep_name d \<in> registry_keys skills \<longrightarrow> dep_name d \<in> R \<union> set o1 \<union> set o2"
      and a2: "ordered_after (dep_edges skills) (registry_keys skills) (R \<union> set o1) o2"
      by blast+
    from True r1 r2 res have ord: "ord = o1 @ o2" and R': "R' = R \<union> set o1 \<union> set o2"
      by simp_all
    from i2 have "set o2 \<inter> (R \<union> set o1) = {}" by auto
    with a1 a2 have "ordered_after (dep_edges skills) (registry_keys skills) R ord"
      unfolding ord by (rule ordered_after_append)
    moreover from t1 t2 have "\<forall>d\<in>set (dep # deps). followed d \<and> dep_name d \<in> registry_keys skills \<longrightarrow> dep_name d \<in> R'"
      unfolding R' by auto
    ultimately show ?thesis using c2 R' by simp
  qed
qed

lemma acyclic_by_rank:
  fixes rank :: "'a \<Rightarrow> nat"
  assumes "\<forall>(s, t)\<in>E. rank t < rank s"
  shows "acyclic E"
proof -
  from assms have "E \<subseteq> (measure rank)\<inverse>" by auto
  moreover have "acyclic ((measure rank)\<inverse>)"
    using wf_acyclic[OF wf_measure[of rank]] by (simp add: acyclic_converse)
  ultimately show ?thesis by (rule acyclic_subset[rotated])
qed

lemma diamond_registry_acyclic: "acyclic (dep_edges diamond_registry)"
proof (rule acyclic_by_rank[where rank = "\<lambda>n. if n = ''A'' then 2 else if n = ''D'' then 0 else 1"])
  show "\<forall>(s, t)\<in>dep_edges diamond_registry.
          (if t = ''A'' then 2 else if t = ''D'' then 0 else (1::nat))
            < (if s = ''A'' then 2 else if s = ''D'' then 0 else 1)"
    by (auto simp: dep_edges_def diamond_registry_def example_skill_def requires_def
          split: if_splits)
qed

text \<open>
  C1. On a registry whose graph of required and auto-load edges is acyclic, resolving a
  registered name returns an order without repetitions that contains the name, and for
  every skill \<open>s\<close> of the order and every required or auto-load edge from \<open>s\<close> to \<open>t\<close>: \<open>s\<close> does
  not stand before \<open>t\<close>, and when \<open>t\<close> is registered, \<open>t\<close> stands before \<open>s\<close>.
\<close>

theorem resolve_topological_order:
  assumes "acyclic (dep_edges skills)" and "name \<in> registry_keys skills"
  shows "\<exists>order missing. resolve_skill_dependencies name skills = Inr (order, missing) \<and>
           distinct order \<and> name \<in> set order \<and>
           (\<forall>s\<in>set order. \<forall>t. (s, t) \<in> dep_edges skills \<longrightarrow>
              (t \<in> registry_keys skills \<longrightarrow> precedes t s order) \<and> \<not> precedes s t order)"
proof -
  from resolve_shape(1)[of skills "{}" "{}" name] obtain order missing where
    r: "resolve name skills {} {} = Inr (order, missing, {} \<union> set order, {})"
    and dist: "distinct order" and keys: "set order \<subseteq> registry_keys skills"
    unfolding well_shaped_def by blast
  have "deps_closed skills {}" by (simp add: deps_closed_def)
  from resolve_topological(1)[OF assms(1) _ this r]
  have inR: "name \<in> registry_keys skills \<longrightarrow> name \<in> {} \<union> set order"
    and after: "ordered_after (dep_edges skills) (registry_keys skills) {} order"
    by simp_all
  have "(t \<in> registry_keys skills \<longrightarrow> precedes t s order) \<and> \<not> precedes s t order"
    if s: "s \<in> set order" and e: "(s, t) \<in> dep_edges skills" for s t
  proof (cases "t \<in> registry_keys skills")
    case True
    with s e after have "precedes t s order" unfolding ordered_after_def by blast
    with dist True show ?thesis by (auto dest: precedes_distinct_asym)
  next
    case False
    with keys have "t \<notin> set order" by auto
    with False show ?thesis by (auto dest: precedes_in_set)
  qed
  moreover from r have "resolve_skill_dependencies name skills = Inr (order, missing)"
    by (simp add: resolve_skill_dependencies_def)
  moreover from inR assms(2) have "name \<in> set order" by simp
  ultimately show ?thesis using dist by blast
qed

theorem resolve_topological_order_witness:
  "acyclic (dep_edges diamond_registry) \<and> ''A'' \<in> registry_keys diamond_registry \<and>
   (\<exists>order missing. resolve_skill_dependencies ''A'' diamond_registry = Inr (order, missing) \<and>
      distinct order \<and> ''A'' \<in> set order \<and>
      (\<forall>s\<in>set order. \<forall>t. (s, t) \<in> dep_edges diamond_registry \<longrightarrow>
         (t \<in> registry_keys diamond_registry \<longrightarrow> precedes t s order) \<and> \<not> precedes s t order))"
proof -
  have k: "''A'' \<in> registry_keys diamond_registry"
    by (simp add: registry_keys_def diamond_registry_def)
  from resolve_topological_order[OF diamond_registry_acyclic k] diamond_registry_acyclic k
  show ?thesis by blast
qed

section \<open>Tool aggregator: get\_tools\_for\_skill\<close>

text \<open>
  The closure \<open>collect_tools\<close> mutates two variables of \<open>get_tools_for_skill\<close>: the
  memoization set \<open>resolved\<close> and the list \<open>all_tools\<close>. The model passes the pair in and out.
  \<open>collect_tools_deps\<close> is the loop over \<open>skill.dependencies.get("skills", [])\<close>.
\<close>

type_synonym tool_state = "string set \<times> ToolDefinition list"

function collect_tools :: "string \<Rightarrow> registry \<Rightarrow> tool_state \<Rightarrow> tool_state"
  and collect_tools_deps :: "SkillDependency list \<Rightarrow> registry \<Rightarrow> tool_state \<Rightarrow> tool_state"
where
  "collect_tools name skills (resolved, all_tools) =
     (if name \<in> resolved \<or> map_of skills name = None then (resolved, all_tools)
      else
        let skill = the (map_of skills name) in
        (case collect_tools_deps (deps_skills (skill_dependencies skill)) skills
                (insert name resolved, all_tools) of
           (resolved', all_tools') \<Rightarrow> (resolved', all_tools' @ skill_tools skill)))"
| "collect_tools_deps [] skills st = st"
| "collect_tools_deps (dep # deps) skills st =
     (if dep_auto_load dep
      then collect_tools_deps deps skills (collect_tools (dep_name dep) skills st)
      else collect_tools_deps deps skills st)"
  by pat_completeness auto

text \<open>A call that returns never removes a name from the memoization set.\<close>

lemma collect_tools_mono_dom:
  "collect_tools_collect_tools_deps_dom (Inl (name, skills, st)) \<Longrightarrow>
     fst st \<subseteq> fst (collect_tools name skills st)"
  "collect_tools_collect_tools_deps_dom (Inr (deps, skills, st)) \<Longrightarrow>
     fst st \<subseteq> fst (collect_tools_deps deps skills st)"
proof (induction name skills st and deps skills st rule: collect_tools_collect_tools_deps.pinduct)
  case (1 name skills resolved all_tools)
  show ?case
  proof (cases "name \<in> resolved \<or> map_of skills name = None")
    case True
    then show ?thesis by (simp add: collect_tools.psimps[OF "1.hyps"])
  next
    case False
    define skill where "skill = the (map_of skills name)"
    obtain r' t' where c: "collect_tools_deps (deps_skills (skill_dependencies skill)) skills
        (insert name resolved, all_tools) = (r', t')"
      by (cases "collect_tools_deps (deps_skills (skill_dependencies skill)) skills
        (insert name resolved, all_tools)") auto
    from "1.IH"[OF False skill_def[symmetric, THEN sym]] c have "insert name resolved \<subseteq> r'"
      by simp
    moreover from False c have "collect_tools name skills (resolved, all_tools)
        = (r', t' @ skill_tools skill)"
      by (auto simp: collect_tools.psimps[OF "1.hyps"] skill_def)
    ultimately show ?thesis by auto
  qed
next
  case (2 skills st)
  then show ?case by (simp add: collect_tools_deps.psimps)
next
  case (3 dep deps skills st)
  show ?case
  proof (cases "dep_auto_load dep")
    case True
    from "3.IH"(1)[OF True] "3.IH"(2)[OF True] True show ?thesis
      by (auto simp: collect_tools_deps.psimps(2)[OF "3.hyps"])
  next
    case False
    from "3.IH"(3)[OF False] False show ?thesis
      by (simp add: collect_tools_deps.psimps(2)[OF "3.hyps"])
  qed
qed

lemma card_keys_mono:
  "R \<subseteq> R' \<Longrightarrow> card (fst ` set skills - R') \<le> card (fst ` set skills - R)"
  by (intro card_mono) auto

text \<open>
  Entering a skill puts one more registry key into the memoization set; the loop works on
  a shorter rest of the edge list with a set that is no smaller.
\<close>

lemma collect_tools_all_dom: "All collect_tools_collect_tools_deps_dom"
proof (relation "measures
    [\<lambda>x. case x of Inl (n, s, st) \<Rightarrow> card (fst ` set s - fst st)
                 | Inr (ds, s, st) \<Rightarrow> card (fst ` set s - fst st),
     \<lambda>x. case x of Inl _ \<Rightarrow> 0 | Inr (ds, s, st) \<Rightarrow> Suc (length ds)]", goal_cases)
  case 1
  show ?case by simp
next
  case (2 name skills resolved all_tools x)
  then obtain v where "map_of skills name = Some v" and "name \<notin> resolved" by auto
  then show ?case by (simp add: card_keys_insert_less)
next
  case 3
  then show ?case by simp
next
  case (4 dep deps skills st)
  from collect_tools_mono_dom(1)[OF 4(2)]
  have "card (fst ` set skills - fst (collect_tools (dep_name dep) skills st))
          \<le> card (fst ` set skills - fst st)"
    by (rule card_keys_mono)
  then show ?case by auto
next
  case 5
  then show ?case by simp
qed

termination collect_tools
  by (rule collect_tools_all_dom)

declare collect_tools.simps [simp del]

definition get_tools_for_skill :: "string \<Rightarrow> registry \<Rightarrow> ToolDefinition list" where
  "get_tools_for_skill name skills = snd (collect_tools name skills ({}, []))"

subsection \<open>The skills the aggregator visits\<close>

text \<open>The auto-load edges of the registry, whatever their \<open>required\<close> flag.\<close>

definition auto_edges :: "registry \<Rightarrow> (string \<times> string) set" where
  "auto_edges skills =
     {(s, t). \<exists>skill d. map_of skills s = Some skill \<and>
        d \<in> set (deps_skills (skill_dependencies skill)) \<and> dep_auto_load d \<and> dep_name d = t}"

text \<open>The names a skill's auto-load edges point to, in declaration order.\<close>

definition auto_names :: "SkillMeta \<Rightarrow> string list" where
  "auto_names skill = map dep_name (filter dep_auto_load (deps_skills (skill_dependencies skill)))"

text \<open>The own tools of a registered name (none for a name that is not registered).\<close>

definition tools_of :: "registry \<Rightarrow> string \<Rightarrow> ToolDefinition list" where
  "tools_of skills n = (case map_of skills n of None \<Rightarrow> [] | Some skill \<Rightarrow> skill_tools skill)"

text \<open>
  The auto-load edges whose target does not lead back to their source along auto-load
  edges: the edges that lie on no cycle.
\<close>

definition forward_edges :: "registry \<Rightarrow> (string \<times> string) set" where
  "forward_edges skills =
     {(s, t). (s, t) \<in> auto_edges skills \<and> (t, s) \<notin> (auto_edges skills)\<^sup>*}"

text \<open>
  What a call of \<open>collect_tools\<close> on \<open>n\<close> that finds the memoization set \<open>R\<close> has visited,
  as the list \<open>ord\<close> of the skills whose tools it appended, in the order of appending:
  every skill once, none that was memoized, each reachable from \<open>n\<close> along auto-load edges,
  each with all its registered auto-load targets memoized afterwards; and each after every
  registered target of its forward edges that was not memoized before.
\<close>

definition visited_node :: "registry \<Rightarrow> string \<Rightarrow> string set \<Rightarrow> string list \<Rightarrow> bool" where
  "visited_node skills n R ord =
     (distinct ord \<and> set ord \<inter> R = {} \<and> set ord \<subseteq> registry_keys skills \<and>
      (n \<in> registry_keys skills \<longrightarrow> n \<in> R \<union> set ord) \<and>
      (\<forall>s\<in>set ord. (n, s) \<in> (auto_edges skills)\<^sup>*) \<and>
      (\<forall>s\<in>set ord. \<forall>t. (s, t) \<in> auto_edges skills \<and> t \<in> registry_keys skills \<longrightarrow> t \<in> R \<union> set ord) \<and>
      ordered_after (forward_edges skills) (registry_keys skills) R ord)"

definition visited_deps :: "registry \<Rightarrow> SkillDependency list \<Rightarrow> string set \<Rightarrow> string list \<Rightarrow> bool" where
  "visited_deps skills ds R ord =
     (distinct ord \<and> set ord \<inter> R = {} \<and> set ord \<subseteq> registry_keys skills \<and>
      (\<forall>d\<in>set ds. dep_auto_load d \<and> dep_name d \<in> registry_keys skills \<longrightarrow> dep_name d \<in> R \<union> set ord) \<and>
      (\<forall>s\<in>set ord. \<exists>d\<in>set ds. dep_auto_load d \<and> (dep_name d, s) \<in> (auto_edges skills)\<^sup>*) \<and>
      (\<forall>s\<in>set ord. \<forall>t. (s, t) \<in> auto_edges skills \<and> t \<in> registry_keys skills \<longrightarrow> t \<in> R \<union> set ord) \<and>
      ordered_after (forward_edges skills) (registry_keys skills) R ord)"

lemma auto_edgesI:
  "map_of skills s = Some skill \<Longrightarrow> d \<in> set (deps_skills (skill_dependencies skill)) \<Longrightarrow>
   dep_auto_load d \<Longrightarrow> (s, dep_name d) \<in> auto_edges skills"
  unfolding auto_edges_def by blast

lemma auto_edgesE:
  assumes "(s, t) \<in> auto_edges skills" and "map_of skills s = Some skill"
  obtains d where "d \<in> set (deps_skills (skill_dependencies skill))" "dep_auto_load d" "dep_name d = t"
  using assms unfolding auto_edges_def by auto

lemma visited_node_memo: "n \<in> R \<Longrightarrow> visited_node skills n R []"
  by (simp add: visited_node_def ordered_after_def)

lemma visited_node_absent: "map_of skills n = None \<Longrightarrow> visited_node skills n R []"
  by (simp add: visited_node_def ordered_after_def map_of_keys_iff)

lemma visited_deps_Nil: "visited_deps skills [] R []"
  by (simp add: visited_deps_def ordered_after_def)

lemma visited_deps_skip:
  "\<not> dep_auto_load d \<Longrightarrow> visited_deps skills ds R ord \<Longrightarrow> visited_deps skills (d # ds) R ord"
  unfolding visited_deps_def by auto

lemma visited_deps_Cons:
  assumes a: "dep_auto_load d" and n: "visited_node skills (dep_name d) R o1"
    and r: "visited_deps skills ds (R \<union> set o1) o2"
  shows "visited_deps skills (d # ds) R (o1 @ o2)"
proof -
  from n have n1: "distinct o1" and n2: "set o1 \<inter> R = {}" and n3: "set o1 \<subseteq> registry_keys skills"
    and n4: "dep_name d \<in> registry_keys skills \<longrightarrow> dep_name d \<in> R \<union> set o1"
    and n5: "\<forall>s\<in>set o1. (dep_name d, s) \<in> (auto_edges skills)\<^sup>*"
    and n6: "\<forall>s\<in>set o1. \<forall>t. (s, t) \<in> auto_edges skills \<and> t \<in> registry_keys skills \<longrightarrow> t \<in> R \<union> set o1"
    and n7: "ordered_after (forward_edges skills) (registry_keys skills) R o1"
    unfolding visited_node_def by blast+
  from r have r1: "distinct o2" and r2: "set o2 \<inter> (R \<union> set o1) = {}" and r3: "set o2 \<subseteq> registry_keys skills"
    and r4: "\<forall>e\<in>set ds. dep_auto_load e \<and> dep_name e \<in> registry_keys skills \<longrightarrow> dep_name e \<in> R \<union> set o1 \<union> set o2"
    and r5: "\<forall>s\<in>set o2. \<exists>e\<in>set ds. dep_auto_load e \<and> (dep_name e, s) \<in> (auto_edges skills)\<^sup>*"
    and r6: "\<forall>s\<in>set o2. \<forall>t. (s, t) \<in> auto_edges skills \<and> t \<in> registry_keys skills \<longrightarrow> t \<in> R \<union> set o1 \<union> set o2"
    and r7: "ordered_after (forward_edges skills) (registry_keys skills) (R \<union> set o1) o2"
    unfolding visited_deps_def by blast+
  have 1: "distinct (o1 @ o2)" using n1 r1 r2 by auto
  have 2: "set (o1 @ o2) \<inter> R = {}" using n2 r2 by auto
  have 3: "set (o1 @ o2) \<subseteq> registry_keys skills" using n3 r3 by auto
  have 4: "\<forall>e\<in>set (d # ds). dep_auto_load e \<and> dep_name e \<in> registry_keys skills \<longrightarrow> dep_name e \<in> R \<union> set (o1 @ o2)"
    using n4 r4 by auto
  have 5: "\<forall>s\<in>set (o1 @ o2). \<exists>e\<in>set (d # ds). dep_auto_load e \<and> (dep_name e, s) \<in> (auto_edges skills)\<^sup>*"
    using a n5 r5 by auto
  have 6: "\<forall>s\<in>set (o1 @ o2). \<forall>t. (s, t) \<in> auto_edges skills \<and> t \<in> registry_keys skills \<longrightarrow> t \<in> R \<union> set (o1 @ o2)"
    using n6 r6 by auto
  have 7: "ordered_after (forward_edges skills) (registry_keys skills) R (o1 @ o2)"
    using n7 r7 r2 by (rule ordered_after_append)
  from 1 2 3 4 5 6 7 show ?thesis unfolding visited_deps_def by blast
qed

lemma visited_node_enter:
  assumes m: "map_of skills n = Some skill" and nR: "n \<notin> R"
    and r: "visited_deps skills (deps_skills (skill_dependencies skill)) (insert n R) o0"
  shows "visited_node skills n R (o0 @ [n])"
proof -
  let ?E = "auto_edges skills" and ?K = "registry_keys skills"
  let ?F = "forward_edges skills"
  let ?ds = "deps_skills (skill_dependencies skill)"
  from r have r1: "distinct o0" and r2: "set o0 \<inter> insert n R = {}" and r3: "set o0 \<subseteq> ?K"
    and r4: "\<forall>e\<in>set ?ds. dep_auto_load e \<and> dep_name e \<in> ?K \<longrightarrow> dep_name e \<in> insert n R \<union> set o0"
    and r5: "\<forall>s\<in>set o0. \<exists>e\<in>set ?ds. dep_auto_load e \<and> (dep_name e, s) \<in> ?E\<^sup>*"
    and r6: "\<forall>s\<in>set o0. \<forall>t. (s, t) \<in> ?E \<and> t \<in> ?K \<longrightarrow> t \<in> insert n R \<union> set o0"
    and r7: "ordered_after ?F ?K (insert n R) o0"
    unfolding visited_deps_def by blast+
  have nK: "n \<in> ?K" using m by (rule map_of_Some_keys)
  have reach: "(n, s) \<in> ?E\<^sup>+" if "s \<in> set o0" for s
  proof -
    from r5 that obtain e where e: "e \<in> set ?ds" "dep_auto_load e" "(dep_name e, s) \<in> ?E\<^sup>*" by blast
    from m e(1,2) have "(n, dep_name e) \<in> ?E" by (rule auto_edgesI)
    with e(3) show ?thesis by (meson rtrancl_into_trancl2)
  qed
  have targets: "t \<in> insert n R \<union> set o0" if "(n, t) \<in> ?E" "t \<in> ?K" for t
  proof -
    from that(1) m obtain e where "e \<in> set ?ds" "dep_auto_load e" "dep_name e = t"
      by (rule auto_edgesE)
    with r4 that(2) show ?thesis by blast
  qed
  have 1: "distinct (o0 @ [n])" using r1 r2 by auto
  have 2: "set (o0 @ [n]) \<inter> R = {}" using r2 nR by auto
  have 3: "set (o0 @ [n]) \<subseteq> ?K" using r3 nK by auto
  have 4: "n \<in> ?K \<longrightarrow> n \<in> R \<union> set (o0 @ [n])" by simp
  have 5: "\<forall>s\<in>set (o0 @ [n]). (n, s) \<in> ?E\<^sup>*" using reach by (auto dest: trancl_into_rtrancl)
  have 6: "\<forall>s\<in>set (o0 @ [n]). \<forall>t. (s, t) \<in> ?E \<and> t \<in> ?K \<longrightarrow> t \<in> R \<union> set (o0 @ [n])"
    using r6 targets by auto
  have 7: "ordered_after ?F ?K R (o0 @ [n])"
  proof -
    have no_back: "(s, n) \<notin> ?F" if "s \<in> set o0" for s
    proof
      assume "(s, n) \<in> ?F"
      then have "(n, s) \<notin> ?E\<^sup>*" by (simp add: forward_edges_def)
      with reach[OF that] show False by (auto dest: trancl_into_rtrancl)
    qed
    have a': "ordered_after ?F ?K R o0"
      unfolding ordered_after_def
    proof (intro allI impI)
      fix s t assume h: "s \<in> set o0 \<and> (s, t) \<in> ?F \<and> t \<in> ?K"
      with r7 have "t \<in> insert n R \<or> precedes t s o0" unfolding ordered_after_def by blast
      moreover from h no_back have "t \<noteq> n" by blast
      ultimately show "t \<in> R \<or> precedes t s o0" by blast
    qed
    have no_self: "(n, n) \<notin> ?F" by (simp add: forward_edges_def)
    have "\<forall>t. (n, t) \<in> ?F \<and> t \<in> ?K \<longrightarrow> t \<in> R \<union> set o0"
    proof (intro allI impI)
      fix t assume h: "(n, t) \<in> ?F \<and> t \<in> ?K"
      then have "(n, t) \<in> ?E" by (simp add: forward_edges_def)
      with h targets have "t \<in> insert n R \<union> set o0" by blast
      moreover from h no_self have "t \<noteq> n" by blast
      ultimately show "t \<in> R \<union> set o0" by blast
    qed
    moreover from r2 have "n \<notin> set o0" by auto
    ultimately show ?thesis using a' by (intro ordered_after_snoc) auto
  qed
  from 1 2 3 4 5 6 7 show ?thesis unfolding visited_node_def by blast
qed

lemma collect_tools_visits:
  "\<exists>ord. collect_tools n skills st = (fst st \<union> set ord, snd st @ concat (map (tools_of skills) ord))
         \<and> visited_node skills n (fst st) ord"
  "\<exists>ord. collect_tools_deps ds skills st = (fst st \<union> set ord, snd st @ concat (map (tools_of skills) ord))
         \<and> visited_deps skills ds (fst st) ord"
proof (induction n skills st and ds skills st rule: collect_tools_collect_tools_deps.induct)
  case (1 name skills resolved all_tools)
  show ?case
  proof (cases "name \<in> resolved \<or> map_of skills name = None")
    case True
    then have "collect_tools name skills (resolved, all_tools) = (resolved, all_tools)"
      by (simp add: collect_tools.simps)
    moreover from True have "visited_node skills name resolved []"
      using visited_node_memo visited_node_absent by blast
    ultimately show ?thesis by (intro exI[of _ "[]"]) simp
  next
    case False
    then obtain skill where m: "map_of skills name = Some skill" and nR: "name \<notin> resolved" by auto
    from "1.IH"[OF False, of skill] m obtain o0 where
      c: "collect_tools_deps (deps_skills (skill_dependencies skill)) skills (insert name resolved, all_tools)
           = (insert name resolved \<union> set o0, all_tools @ concat (map (tools_of skills) o0))"
      and v: "visited_deps skills (deps_skills (skill_dependencies skill)) (insert name resolved) o0"
      by auto
    from m nR c have "collect_tools name skills (resolved, all_tools)
        = (insert name resolved \<union> set o0, all_tools @ concat (map (tools_of skills) o0) @ skill_tools skill)"
      by (simp add: collect_tools.simps)
    moreover have "insert name resolved \<union> set o0 = resolved \<union> set (o0 @ [name])" by auto
    moreover from m have "concat (map (tools_of skills) o0) @ skill_tools skill
        = concat (map (tools_of skills) (o0 @ [name]))"
      by (simp add: tools_of_def)
    moreover note visited_node_enter[OF m nR v]
    ultimately show ?thesis by (intro exI[of _ "o0 @ [name]"]) simp
  qed
next
  case (2 skills st)
  show ?case using visited_deps_Nil by (intro exI[of _ "[]"]) simp
next
  case (3 dep deps skills st)
  show ?case
  proof (cases "dep_auto_load dep")
    case False
    from "3.IH"(3)[OF False] obtain ord where
      "collect_tools_deps deps skills st = (fst st \<union> set ord, snd st @ concat (map (tools_of skills) ord))"
      "visited_deps skills deps (fst st) ord"
      by blast
    with False show ?thesis
      by (intro exI[of _ ord]) (simp add: visited_deps_skip)
  next
    case True
    from "3.IH"(1)[OF True] obtain o1 where
      c1: "collect_tools (dep_name dep) skills st
             = (fst st \<union> set o1, snd st @ concat (map (tools_of skills) o1))"
      and v1: "visited_node skills (dep_name dep) (fst st) o1"
      by blast
    from "3.IH"(2)[OF True] c1 obtain o2 where
      c2: "collect_tools_deps deps skills (fst st \<union> set o1, snd st @ concat (map (tools_of skills) o1))
             = (fst st \<union> set o1 \<union> set o2,
                (snd st @ concat (map (tools_of skills) o1)) @ concat (map (tools_of skills) o2))"
      and v2: "visited_deps skills deps (fst st \<union> set o1) o2"
      by auto
    from True c1 c2 have "collect_tools_deps (dep # deps) skills st
        = (fst st \<union> set (o1 @ o2), snd st @ concat (map (tools_of skills) (o1 @ o2)))"
      by (simp add: Un_assoc)
    with visited_deps_Cons[OF True v1 v2] show ?thesis by blast
  qed
qed

subsection \<open>Stepping through the aggregator\<close>

definition example_tool :: "string \<Rightarrow> ToolDefinition" where
  "example_tool n = \<lparr>tool_name = n, tool_category = ''cli'', tool_description = [],
     tool_command = [], tool_parameters = [], tool_examples = [], tool_aliases = []\<rparr>"

lemma collect_tools_memo: "n \<in> R \<Longrightarrow> collect_tools n skills (R, ts) = (R, ts)"
  by (simp add: collect_tools.simps)

lemma collect_tools_enter:
  "map_of skills n = Some skill \<Longrightarrow> n \<notin> R \<Longrightarrow>
   collect_tools n skills (R, ts) =
     (case collect_tools_deps (deps_skills (skill_dependencies skill)) skills (insert n R, ts) of
        (resolved', all_tools') \<Rightarrow> (resolved', all_tools' @ skill_tools skill))"
  by (simp add: collect_tools.simps)

lemma collect_tools_deps_names:
  "collect_tools_deps ds skills st =
     collect_tools_deps (map auto_loads (map dep_name (filter dep_auto_load ds))) skills st"
  by (induction ds arbitrary: st) (simp_all add: auto_loads_def)

lemma collect_tools_deps_Nil_names:
  "map dep_name (filter dep_auto_load ds) = [] \<Longrightarrow> collect_tools_deps ds skills st = st"
  by (subst collect_tools_deps_names) simp

lemma collect_tools_deps_Cons_names:
  "map dep_name (filter dep_auto_load ds) = n # ns \<Longrightarrow>
   collect_tools_deps ds skills st =
     collect_tools_deps (map auto_loads ns) skills (collect_tools n skills st)"
  by (subst collect_tools_deps_names) (simp add: auto_loads_def)

lemma collect_tools_leaf:
  assumes "map_of skills n = Some skill" and "auto_names skill = []" and "n \<notin> R"
  shows "collect_tools n skills (R, ts) = (insert n R, ts @ skill_tools skill)"
  using assms by (simp add: collect_tools_enter collect_tools_deps_Nil_names auto_names_def)

lemma collect_tools_single:
  assumes "map_of skills n = Some skill" and "auto_names skill = [m]" and "n \<notin> R"
    and "collect_tools m skills (insert n R, ts) = (R', ts')"
  shows "collect_tools n skills (R, ts) = (R', ts' @ skill_tools skill)"
  using assms by (simp add: collect_tools_enter collect_tools_deps_Cons_names auto_names_def)


lemma get_tools_cycle:
  assumes "a \<noteq> b"
    and "map_of skills a = Some sa" and "auto_names sa = [b]"
    and "map_of skills b = Some sb" and "auto_names sb = [a]"
  shows "get_tools_for_skill a skills = skill_tools sb @ skill_tools sa"
proof -
  have m: "collect_tools a skills (insert b {a}, []) = (insert b {a}, [])"
    by (simp add: collect_tools_memo)
  from assms(1) have "b \<notin> {a}" by auto
  from collect_tools_single[OF assms(4,5) this m]
  have b: "collect_tools b skills (insert a {}, []) = (insert b {a}, [] @ skill_tools sb)"
    by simp
  have "a \<notin> {}" by simp
  from collect_tools_single[OF assms(2,3) this b]
  show ?thesis by (simp add: get_tools_for_skill_def)
qed

lemma get_tools_visits:
  "\<exists>ord. get_tools_for_skill name skills = concat (map (tools_of skills) ord) \<and>
         visited_node skills name {} ord"
  using collect_tools_visits(1)[of name skills "({}, [])"]
  by (auto simp: get_tools_for_skill_def)

subsection \<open>Termination of the aggregator\<close>

definition tool_cycle_registry :: registry where
  "tool_cycle_registry =
     [(''A'', example_skill ''A'' [auto_loads ''B''] [example_tool ''a'']),
      (''B'', example_skill ''B'' [auto_loads ''A''] [example_tool ''b''])]"

text \<open>
  C10. The recursion of \<open>collect_tools\<close> is well-founded on every input, cyclic auto-load
  edges included; \<open>get_tools_for_skill\<close> returns the own tools of a list of skills without
  repetitions (each skill is entered at most once); and for two skills that auto-load each
  other it returns the tools of the second followed by the tools of the first.
\<close>

theorem get_tools_terminates:
  "collect_tools_collect_tools_deps_dom (Inl (name, skills, st)) \<and>
   (\<exists>ord. distinct ord \<and> set ord \<subseteq> registry_keys skills \<and>
           get_tools_for_skill name skills = concat (map (tools_of skills) ord)) \<and>
   (a \<noteq> b \<and> map_of skills a = Some sa \<and> auto_names sa = [b] \<and>
    map_of skills b = Some sb \<and> auto_names sb = [a]
    \<longrightarrow> get_tools_for_skill a skills = skill_tools sb @ skill_tools sa)"
proof -
  have "collect_tools_collect_tools_deps_dom (Inl (name, skills, st))"
    using collect_tools_all_dom by blast
  moreover from get_tools_visits[of name skills]
  have "\<exists>ord. distinct ord \<and> set ord \<subseteq> registry_keys skills \<and>
           get_tools_for_skill name skills = concat (map (tools_of skills) ord)"
    unfolding visited_node_def by blast
  ultimately show ?thesis using get_tools_cycle[of a b skills sa sb] by blast
qed

theorem get_tools_terminates_witness:
  "''A'' \<noteq> ''B'' \<and>
   map_of tool_cycle_registry ''A'' = Some (example_skill ''A'' [auto_loads ''B''] [example_tool ''a'']) \<and>
   auto_names (example_skill ''A'' [auto_loads ''B''] [example_tool ''a'']) = [''B''] \<and>
   map_of tool_cycle_registry ''B'' = Some (example_skill ''B'' [auto_loads ''A''] [example_tool ''b'']) \<and>
   auto_names (example_skill ''B'' [auto_loads ''A''] [example_tool ''b'']) = [''A''] \<and>
   collect_tools_collect_tools_deps_dom (Inl (''A'', tool_cycle_registry, ({}, []))) \<and>
   get_tools_for_skill ''A'' tool_cycle_registry = [example_tool ''b'', example_tool ''a'']"
  using get_tools_terminates[of "''A''" tool_cycle_registry "({}, [])" "''A''" "''B''"
      "example_skill ''A'' [auto_loads ''B''] [example_tool ''a'']"
      "example_skill ''B'' [auto_loads ''A''] [example_tool ''b'']"]
  by (simp add: tool_cycle_registry_def auto_names_def example_skill_def auto_loads_def)

subsection \<open>Order of the aggregated tools\<close>











section \<open>Tool manifest: generate\_tool\_manifest\<close>

text \<open>
  The dicts \<open>generate_tool_manifest\<close> builds: one per parameter, one per tool (\<open>tool_def\<close>),
  and the manifest with its keys \<open>"skill"\<close>, \<open>"tools"\<close> and \<open>"tool_index"\<close>. The index is a
  dict from lookup key to \<open>tool_def\<close>; an assignment \<open>d[k] = v\<close> replaces the value of a key
  that is present (keeping its place) and appends a new key, as \<open>AList.update\<close> does.
\<close>

record ParameterDict =
  pdict_name :: string
  pdict_type :: string
  pdict_required :: bool
  pdict_default :: yaml
  pdict_description :: string

record ToolDict =
  tdict_name :: string
  tdict_category :: string
  tdict_description :: string
  tdict_command :: string
  tdict_parameters :: "ParameterDict list"
  tdict_examples :: "string list"
  tdict_aliases :: "string list"

record Manifest =
  manifest_skill :: string
  manifest_tools :: "ToolDict list"
  manifest_tool_index :: "(string \<times> ToolDict) list"

definition parameter_dict :: "ToolParameter \<Rightarrow> ParameterDict" where
  "parameter_dict p =
     \<lparr>pdict_name = param_name p, pdict_type = param_type p, pdict_required = param_required p,
      pdict_default = param_default p, pdict_description = param_description p\<rparr>"

definition tool_def :: "ToolDefinition \<Rightarrow> ToolDict" where
  "tool_def tool =
     \<lparr>tdict_name = tool_name tool, tdict_category = tool_category tool,
      tdict_description = tool_description tool, tdict_command = tool_command tool,
      tdict_parameters = map parameter_dict (tool_parameters tool),
      tdict_examples = tool_examples tool, tdict_aliases = tool_aliases tool\<rparr>"

text \<open>The inner loop \<open>for alias in tool.aliases: manifest["tool_index"][alias] = tool_def\<close>.\<close>

fun index_aliases :: "string list \<Rightarrow> ToolDict \<Rightarrow> (string \<times> ToolDict) list \<Rightarrow> (string \<times> ToolDict) list" where
  "index_aliases [] td idx = idx"
| "index_aliases (alias # aliases) td idx = index_aliases aliases td (AList.update alias td idx)"

text \<open>The loop \<open>for tool in tools\<close>.\<close>

fun manifest_loop :: "ToolDefinition list \<Rightarrow> Manifest \<Rightarrow> Manifest" where
  "manifest_loop [] manifest = manifest"
| "manifest_loop (tool # tools) manifest =
     manifest_loop tools
       (manifest\<lparr>manifest_tools := manifest_tools manifest @ [tool_def tool],
                 manifest_tool_index :=
                   index_aliases (tool_aliases tool) (tool_def tool)
                     (AList.update (tool_name tool) (tool_def tool) (manifest_tool_index manifest))\<rparr>)"

definition generate_tool_manifest :: "string \<Rightarrow> registry \<Rightarrow> Manifest" where
  "generate_tool_manifest name skills =
     manifest_loop (get_tools_for_skill name skills)
       \<lparr>manifest_skill = name, manifest_tools = [], manifest_tool_index = []\<rparr>"

text \<open>The lookup keys of a tool: its name and its aliases.\<close>

definition answers_to :: "string \<Rightarrow> ToolDefinition \<Rightarrow> bool" where
  "answers_to k tool = (k = tool_name tool \<or> k \<in> set (tool_aliases tool))"

lemma index_aliases_lookup:
  "map_of (index_aliases as td idx) k = (if k \<in> set as then Some td else map_of idx k)"
  by (induction as arbitrary: idx) (auto simp: update_conv')

lemma update_keys_set: "fst ` set (AList.update k v al) = insert k (fst ` set al)"
proof -
  have "dom (map_of (AList.update k v al)) = insert k (dom (map_of al))"
    by (simp add: update_conv')
  then show ?thesis by (simp add: dom_map_of_conv_image_fst)
qed

lemma index_aliases_keys:
  "fst ` set (index_aliases as td idx) = set as \<union> fst ` set idx"
  by (induction as arbitrary: idx) (simp_all add: update_keys_set)

lemma find_snoc:
  "find P (xs @ [x]) = (case find P xs of Some y \<Rightarrow> Some y | None \<Rightarrow> if P x then Some x else None)"
  by (induction xs) auto

lemma manifest_loop_lookup:
  "map_of (manifest_tool_index (manifest_loop tools m)) k =
     (case find (answers_to k) (rev tools) of
        Some tool \<Rightarrow> Some (tool_def tool)
      | None \<Rightarrow> map_of (manifest_tool_index m) k)"
proof (induction tools arbitrary: m)
  case Nil
  show ?case by simp
next
  case (Cons t ts)
  show ?case
    by (simp add: Cons.IH find_snoc index_aliases_lookup update_conv' answers_to_def
          split: option.splits)
qed

lemma manifest_loop_keys:
  "fst ` set (manifest_tool_index (manifest_loop tools m)) =
     fst ` set (manifest_tool_index m) \<union> (\<Union>t\<in>set tools. insert (tool_name t) (set (tool_aliases t)))"
proof (induction tools arbitrary: m)
  case Nil
  show ?case by simp
next
  case (Cons t ts)
  show ?case by (simp add: Cons.IH index_aliases_keys update_keys_set) blast
qed

lemma manifest_loop_tools:
  "manifest_tools (manifest_loop tools m) = manifest_tools m @ map tool_def tools"
  by (induction tools arbitrary: m) simp_all

lemma manifest_loop_skill: "manifest_skill (manifest_loop tools m) = manifest_skill m"
  by (induction tools arbitrary: m) simp_all

definition search_tool :: ToolDefinition where
  "search_tool = \<lparr>tool_name = ''search'', tool_category = ''cli'', tool_description = [],
     tool_command = [], tool_parameters = [], tool_examples = [], tool_aliases = [''s'', ''find'']\<rparr>"

definition fetch_tool :: ToolDefinition where
  "fetch_tool = \<lparr>tool_name = ''find'', tool_category = ''api'', tool_description = [],
     tool_command = [], tool_parameters = [], tool_examples = [], tool_aliases = [''s'', ''f'']\<rparr>"

definition alias_registry :: registry where
  "alias_registry = [(''X'', example_skill ''X'' [] [search_tool, fetch_tool])]"

text \<open>
  C8. The manifest lists the aggregated tools in traversal order; the keys of its
  \<open>tool_index\<close> are exactly the names and the aliases of the aggregated tools; and a key
  is mapped to the \<open>tool_def\<close> of the last aggregated tool, in traversal order, that has
  it as its name or as an alias (so a later tool overwrites an earlier one, and no key makes
  the function fail).
\<close>

theorem tool_index_last_wins:
  "manifest_skill (generate_tool_manifest name skills) = name \<and>
   manifest_tools (generate_tool_manifest name skills) = map tool_def (get_tools_for_skill name skills) \<and>
   fst ` set (manifest_tool_index (generate_tool_manifest name skills)) =
     (\<Union>t\<in>set (get_tools_for_skill name skills). insert (tool_name t) (set (tool_aliases t))) \<and>
   map_of (manifest_tool_index (generate_tool_manifest name skills)) k =
     map_option tool_def (find (answers_to k) (rev (get_tools_for_skill name skills)))"
  by (simp add: generate_tool_manifest_def manifest_loop_skill manifest_loop_tools
        manifest_loop_keys manifest_loop_lookup split: option.splits)

theorem tool_index_last_wins_witness:
  "get_tools_for_skill ''X'' alias_registry = [search_tool, fetch_tool] \<and>
   map_of (manifest_tool_index (generate_tool_manifest ''X'' alias_registry)) ''s'' = Some (tool_def fetch_tool) \<and>
   map_of (manifest_tool_index (generate_tool_manifest ''X'' alias_registry)) ''find'' = Some (tool_def fetch_tool) \<and>
   map_of (manifest_tool_index (generate_tool_manifest ''X'' alias_registry)) ''search'' = Some (tool_def search_tool) \<and>
   map_of (manifest_tool_index (generate_tool_manifest ''X'' alias_registry)) ''f'' = Some (tool_def fetch_tool) \<and>
   map_of (manifest_tool_index (generate_tool_manifest ''X'' alias_registry)) ''g'' = None"
proof -
  have "map_of alias_registry ''X'' = Some (example_skill ''X'' [] [search_tool, fetch_tool])"
    by (simp add: alias_registry_def)
  moreover have "auto_names (example_skill ''X'' [] [search_tool, fetch_tool]) = []"
    by (simp add: auto_names_def example_skill_def)
  ultimately have "collect_tools ''X'' alias_registry ({}, [])
      = (insert ''X'' {}, [] @ skill_tools (example_skill ''X'' [] [search_tool, fetch_tool]))"
    by (intro collect_tools_leaf) simp_all
  then have g: "get_tools_for_skill ''X'' alias_registry = [search_tool, fetch_tool]"
    by (simp add: get_tools_for_skill_def example_skill_def)
  show ?thesis
    using tool_index_last_wins[of "''X''" alias_registry "''s''"]
      tool_index_last_wins[of "''X''" alias_registry "''find''"]
      tool_index_last_wins[of "''X''" alias_registry "''search''"]
      tool_index_last_wins[of "''X''" alias_registry "''f''"]
      tool_index_last_wins[of "''X''" alias_registry "''g''"]
    by (simp add: g answers_to_def search_tool_def fetch_tool_def)
qed

section \<open>Cycle detector: detect\_circular\_dependencies\<close>

text \<open>\<open>path.index(x)\<close>: the position of the first \<open>x\<close> (the code asks only when \<open>x in path\<close>).\<close>

fun path_index :: "'a list \<Rightarrow> 'a \<Rightarrow> nat" where
  "path_index [] x = 0"
| "path_index (y # ys) x = (if y = x then 0 else Suc (path_index ys x))"

text \<open>
  The nested function \<open>dfs\<close> appends to the list \<open>cycles\<close> of the enclosing function and
  mutates the set \<open>visited\<close> it shares with all its recursive calls; the model passes both
  in and out. Every recursive call gets its own copy of \<open>path\<close>, so the path is an argument
  only. \<open>dfs_deps\<close> is the loop over \<open>skill.dependencies.get("skills", [])\<close>, entered with
  the path that already ends in the current skill.
\<close>

type_synonym dfs_state = "string set \<times> string list list"

function dfs :: "string \<Rightarrow> registry \<Rightarrow> string list \<Rightarrow> dfs_state \<Rightarrow> dfs_state"
  and dfs_deps :: "SkillDependency list \<Rightarrow> registry \<Rightarrow> string list \<Rightarrow> dfs_state \<Rightarrow> dfs_state"
where
  "dfs name skills path (visited, cycles) =
     (if name \<in> set path
      then (visited, cycles @ [drop (path_index path name) path @ [name]])
      else if name \<in> visited then (visited, cycles)
      else (case map_of skills name of
              None \<Rightarrow> (insert name visited, cycles)
            | Some skill \<Rightarrow>
                dfs_deps (deps_skills (skill_dependencies skill)) skills (path @ [name])
                  (insert name visited, cycles)))"
| "dfs_deps [] skills path st = st"
| "dfs_deps (dep # deps) skills path st =
     (if map_of skills (dep_name dep) \<noteq> None
      then dfs_deps deps skills path (dfs (dep_name dep) skills path st)
      else dfs_deps deps skills path st)"
  by pat_completeness auto

text \<open>A call that returns never removes a name from \<open>visited\<close>.\<close>

lemma dfs_mono_dom:
  "dfs_dfs_deps_dom (Inl (name, skills, path, st)) \<Longrightarrow> fst st \<subseteq> fst (dfs name skills path st)"
  "dfs_dfs_deps_dom (Inr (deps, skills, path, st)) \<Longrightarrow> fst st \<subseteq> fst (dfs_deps deps skills path st)"
proof (induction name skills path st and deps skills path st rule: dfs_dfs_deps.pinduct)
  case (1 name skills path visited cycles)
  show ?case
  proof (cases "name \<in> set path \<or> name \<in> visited")
    case True
    then show ?thesis by (auto simp: dfs.psimps[OF "1.hyps"])
  next
    case False
    show ?thesis
    proof (cases "map_of skills name")
      case None
      with False show ?thesis by (auto simp: dfs.psimps[OF "1.hyps"])
    next
      case (Some skill)
      with False "1.IH"[of skill] have
        "insert name visited \<subseteq> fst (dfs_deps (deps_skills (skill_dependencies skill)) skills
            (path @ [name]) (insert name visited, cycles))"
        by simp
      with False Some show ?thesis by (auto simp: dfs.psimps[OF "1.hyps"])
    qed
  qed
next
  case (2 skills path st)
  then show ?case by (simp add: dfs_deps.psimps)
next
  case (3 dep deps skills path st)
  show ?case
  proof (cases "map_of skills (dep_name dep) \<noteq> None")
    case True
    from "3.IH"(1)[OF True] "3.IH"(2)[OF True] True show ?thesis
      by (auto simp: dfs_deps.psimps(2)[OF "3.hyps"])
  next
    case False
    from "3.IH"(3)[OF False] False show ?thesis
      by (auto simp: dfs_deps.psimps(2)[OF "3.hyps"])
  qed
qed

text \<open>
  Expanding a skill puts one more registry key into \<open>visited\<close>; the loop works on a
  shorter rest of the edge list with a set that is no smaller.
\<close>

lemma dfs_all_dom: "All dfs_dfs_deps_dom"
proof (relation "measures
    [\<lambda>x. case x of Inl (n, s, p, st) \<Rightarrow> card (fst ` set s - fst st)
                 | Inr (ds, s, p, st) \<Rightarrow> card (fst ` set s - fst st),
     \<lambda>x. case x of Inl _ \<Rightarrow> 0 | Inr (ds, s, p, st) \<Rightarrow> Suc (length ds)]", goal_cases)
  case 1
  show ?case by simp
next
  case 2
  then show ?case by (simp add: card_keys_insert_less)
next
  case 3
  then show ?case by simp
next
  case prems: 4
  note le = card_keys_mono[OF dfs_mono_dom(1)[OF prems(2)]]
  show ?case by (auto simp: le intro: le_neq_implies_less)
next
  case 5
  then show ?case by simp
qed

termination dfs
  by (rule dfs_all_dom)

declare dfs.simps [simp del]

text \<open>
  \<open>for skill_name in skills: dfs(skill_name, set(), [])\<close>: one traversal from every key of
  the registry in the order of the dict, each with a fresh \<open>visited\<close> set and an empty
  path, all appending to the same list \<open>cycles\<close>.
\<close>

definition detect_circular_dependencies :: "registry \<Rightarrow> string list list" where
  "detect_circular_dependencies skills =
     foldl (\<lambda>cycles name. snd (dfs name skills [] ({}, cycles))) [] (map fst skills)"

subsection \<open>One step of the detector\<close>

lemma dfs_on_path:
  "name \<in> set path \<Longrightarrow>
   dfs name skills path (V, C) = (V, C @ [drop (path_index path name) path @ [name]])"
  by (simp add: dfs.simps)

lemma dfs_seen: "name \<notin> set path \<Longrightarrow> name \<in> V \<Longrightarrow> dfs name skills path (V, C) = (V, C)"
  by (simp add: dfs.simps)

lemma dfs_absent:
  "name \<notin> set path \<Longrightarrow> name \<notin> V \<Longrightarrow> map_of skills name = None \<Longrightarrow>
   dfs name skills path (V, C) = (insert name V, C)"
  by (simp add: dfs.simps)

lemma dfs_expand:
  "name \<notin> set path \<Longrightarrow> name \<notin> V \<Longrightarrow> map_of skills name = Some skill \<Longrightarrow>
   dfs name skills path (V, C) =
     dfs_deps (deps_skills (skill_dependencies skill)) skills (path @ [name]) (insert name V, C)"
  by (simp add: dfs.simps)

lemma path_index_first:
  "x \<in> set path \<Longrightarrow> \<exists>pre post. path = pre @ x # post \<and> x \<notin> set pre \<and> path_index path x = length pre"
proof (induction path)
  case Nil
  then show ?case by simp
next
  case (Cons y ys)
  show ?case
  proof (cases "y = x")
    case True
    then have "y # ys = [] @ x # ys \<and> x \<notin> set [] \<and> path_index (y # ys) x = length ([]::'a list)"
      by simp
    then show ?thesis by blast
  next
    case False
    with Cons obtain pre post where "ys = pre @ x # post" "x \<notin> set pre" "path_index ys x = length pre"
      by auto
    with False have "y # ys = (y # pre) @ x # post \<and> x \<notin> set (y # pre) \<and>
        path_index (y # ys) x = length (y # pre)"
      by simp
    then show ?thesis by blast
  qed
qed

text \<open>The cycle recorded for a name on the path holds that name and the end of the path.\<close>

lemma recorded_cycle_members:
  assumes "x \<in> set path"
  shows "x \<in> set (drop (path_index path x) path @ [x]) \<and>
         last path \<in> set (drop (path_index path x) path @ [x])"
proof -
  from path_index_first[OF assms] obtain pre post where
    p: "path = pre @ x # post" "path_index path x = length pre" by blast
  then have "drop (path_index path x) path = x # post" by simp
  moreover from p(1) have "last path = last (x # post)" by simp
  moreover have "last (x # post) \<in> set (x # post)" by (rule last_in_set) simp
  ultimately show ?thesis by auto
qed

subsection \<open>Every back edge is reported\<close>

text \<open>All dependency edges of the registry, whatever their flags.\<close>

definition all_edges :: "registry \<Rightarrow> (string \<times> string) set" where
  "all_edges skills =
     {(s, t). \<exists>skill d. map_of skills s = Some skill \<and>
        d \<in> set (deps_skills (skill_dependencies skill)) \<and> dep_name d = t}"

text \<open>
  What a traversal step that starts in state \<open>st\<close> with the path \<open>path\<close> and ends in state
  \<open>st'\<close> has done: it has kept what was visited and recorded; and of every skill it
  visited, every edge to a registered target leads to a skill that is visited now or on
  the path, and, when on the path, has a recorded cycle holding both ends of the edge.
\<close>

definition found_from :: "registry \<Rightarrow> string list \<Rightarrow> dfs_state \<Rightarrow> dfs_state \<Rightarrow> bool" where
  "found_from skills path st st' =
     (fst st \<subseteq> fst st' \<and> set (snd st) \<subseteq> set (snd st') \<and>
      (\<forall>m t. m \<in> fst st' - fst st \<and> (m, t) \<in> all_edges skills \<and> t \<in> registry_keys skills \<longrightarrow>
         t \<in> fst st' \<union> set path \<and>
         (t \<in> set path \<longrightarrow> (\<exists>c\<in>set (snd st'). m \<in> set c \<and> t \<in> set c))))"

text \<open>The same for the targets of the edges the loop has gone through.\<close>

definition targets_found :: "registry \<Rightarrow> SkillDependency list \<Rightarrow> string list \<Rightarrow> dfs_state \<Rightarrow> bool" where
  "targets_found skills ds path st' =
     (\<forall>d. d \<in> set ds \<and> dep_name d \<in> registry_keys skills \<longrightarrow>
        dep_name d \<in> fst st' \<union> set path \<and>
        (dep_name d \<in> set path \<longrightarrow> (\<exists>c\<in>set (snd st'). last path \<in> set c \<and> dep_name d \<in> set c)))"

lemma found_from_refl: "found_from skills path st st"
  by (simp add: found_from_def)

lemma all_edges_source: "(s, t) \<in> all_edges skills \<Longrightarrow> map_of skills s \<noteq> None"
  unfolding all_edges_def by auto

lemma all_edges_dep:
  "(s, t) \<in> all_edges skills \<Longrightarrow> map_of skills s = Some skill \<Longrightarrow>
   \<exists>d\<in>set (deps_skills (skill_dependencies skill)). dep_name d = t"
  unfolding all_edges_def by auto

lemma found_from_expand:
  assumes m: "map_of skills n = Some skill"
    and f: "found_from skills (path @ [n]) (insert n V, C) st'"
    and t: "targets_found skills (deps_skills (skill_dependencies skill)) (path @ [n]) st'"
  shows "found_from skills (path @ [n]) (V, C) st'"
  unfolding found_from_def
proof (intro conjI allI impI)
  from f show "fst (V, C) \<subseteq> fst st'" unfolding found_from_def by auto
  from f show "set (snd (V, C)) \<subseteq> set (snd st')" unfolding found_from_def by auto
next
  fix m' t'
  assume h: "m' \<in> fst st' - fst (V, C) \<and> (m', t') \<in> all_edges skills \<and> t' \<in> registry_keys skills"
  show "t' \<in> fst st' \<union> set (path @ [n])"
  proof (cases "m' = n")
    case True
    with h m obtain d where "d \<in> set (deps_skills (skill_dependencies skill))" "dep_name d = t'"
      using all_edges_dep by blast
    with t h show ?thesis unfolding targets_found_def by blast
  next
    case False
    with h have "m' \<in> fst st' - fst (insert n V, C)" by simp
    with f h show ?thesis unfolding found_from_def by blast
  qed
next
  fix m' t'
  assume h: "m' \<in> fst st' - fst (V, C) \<and> (m', t') \<in> all_edges skills \<and> t' \<in> registry_keys skills"
    and p: "t' \<in> set (path @ [n])"
  show "\<exists>c\<in>set (snd st'). m' \<in> set c \<and> t' \<in> set c"
  proof (cases "m' = n")
    case True
    with h m obtain d where "d \<in> set (deps_skills (skill_dependencies skill))" "dep_name d = t'"
      using all_edges_dep by blast
    with t h p have "\<exists>c\<in>set (snd st'). last (path @ [n]) \<in> set c \<and> t' \<in> set c"
      unfolding targets_found_def by blast
    with True show ?thesis by simp
  next
    case False
    with h have "m' \<in> fst st' - fst (insert n V, C)" by simp
    with f h p show ?thesis unfolding found_from_def by blast
  qed
qed

lemma found_from_step:
  assumes f1: "found_from skills (path @ [n]) st st1"
    and n: "n \<in> set path \<or> n \<in> fst st1"
    and f2: "found_from skills path st1 st'"
  shows "found_from skills path st st'"
  unfolding found_from_def
proof (intro conjI allI impI)
  from f1 f2 show "fst st \<subseteq> fst st'" unfolding found_from_def by blast
  from f1 f2 show "set (snd st) \<subseteq> set (snd st')" unfolding found_from_def by blast
next
  fix m t
  assume h: "m \<in> fst st' - fst st \<and> (m, t) \<in> all_edges skills \<and> t \<in> registry_keys skills"
  from f2 have mono: "fst st1 \<subseteq> fst st'" unfolding found_from_def by blast
  show "t \<in> fst st' \<union> set path"
  proof (cases "m \<in> fst st1")
    case True
    with h f1 have "t \<in> fst st1 \<union> set (path @ [n])" unfolding found_from_def by blast
    with n mono show ?thesis by auto
  next
    case False
    with h f2 show ?thesis unfolding found_from_def by blast
  qed
next
  fix m t
  assume h: "m \<in> fst st' - fst st \<and> (m, t) \<in> all_edges skills \<and> t \<in> registry_keys skills"
    and p: "t \<in> set path"
  from f2 have cyc: "set (snd st1) \<subseteq> set (snd st')" unfolding found_from_def by blast
  show "\<exists>c\<in>set (snd st'). m \<in> set c \<and> t \<in> set c"
  proof (cases "m \<in> fst st1")
    case True
    with h p f1 have "\<exists>c\<in>set (snd st1). m \<in> set c \<and> t \<in> set c"
      unfolding found_from_def by auto
    with cyc show ?thesis by blast
  next
    case False
    with h p f2 show ?thesis unfolding found_from_def by blast
  qed
qed

lemma targets_found_Cons:
  assumes p: "path \<noteq> []"
    and s: "st1 = dfs (dep_name d) skills path st"
    and n: "dep_name d \<in> set path \<or> dep_name d \<in> fst st1"
    and f2: "found_from skills path st1 st'"
    and t: "targets_found skills ds path st'"
  shows "targets_found skills (d # ds) path st'"
  unfolding targets_found_def
proof (intro allI impI)
  fix e
  assume h: "e \<in> set (d # ds) \<and> dep_name e \<in> registry_keys skills"
  from f2 have mono: "fst st1 \<subseteq> fst st'" and cyc: "set (snd st1) \<subseteq> set (snd st')"
    unfolding found_from_def by blast+
  show "dep_name e \<in> fst st' \<union> set path \<and>
        (dep_name e \<in> set path \<longrightarrow> (\<exists>c\<in>set (snd st'). last path \<in> set c \<and> dep_name e \<in> set c))"
  proof (cases "dep_name e = dep_name d")
    case True
    have "\<exists>c\<in>set (snd st'). last path \<in> set c \<and> dep_name d \<in> set c" if on: "dep_name d \<in> set path"
    proof -
      obtain V C where st: "st = (V, C)" by (cases st)
      let ?c = "drop (path_index path (dep_name d)) path @ [dep_name d]"
      from on s st have "snd st1 = C @ [?c]"
        by (simp add: dfs_on_path)
      with cyc have "?c \<in> set (snd st')" by auto
      moreover note recorded_cycle_members[OF on]
      ultimately show ?thesis by blast
    qed
    with True n mono show ?thesis by auto
  next
    case False
    with h have "e \<in> set ds" by auto
    with h t show ?thesis unfolding targets_found_def by blast
  qed
qed

lemma targets_found_skip:
  "dep_name d \<notin> registry_keys skills \<Longrightarrow> targets_found skills ds path st' \<Longrightarrow>
   targets_found skills (d # ds) path st'"
  unfolding targets_found_def by auto

lemma dfs_finds:
  "found_from skills (path @ [n]) st (dfs n skills path st) \<and>
   (n \<in> set path \<or> n \<in> fst (dfs n skills path st))"
  "path \<noteq> [] \<longrightarrow> found_from skills path st (dfs_deps ds skills path st) \<and>
     targets_found skills ds path (dfs_deps ds skills path st)"
proof (induction n skills path st and ds skills path st rule: dfs_dfs_deps.induct)
  case (1 name skills path visited cycles)
  show ?case
  proof (cases "name \<in> set path")
    case True
    then show ?thesis by (auto simp: dfs_on_path found_from_def)
  next
    case notpath: False
    show ?thesis
    proof (cases "name \<in> visited")
      case True
      with notpath show ?thesis by (simp add: dfs_seen found_from_def)
    next
      case notseen: False
      show ?thesis
      proof (cases "map_of skills name")
        case None
        then have "\<And>t. (name, t) \<notin> all_edges skills" using all_edges_source by blast
        with notpath notseen None show ?thesis
          by (auto simp: dfs_absent found_from_def)
      next
        case (Some skill)
        let ?st' = "dfs_deps (deps_skills (skill_dependencies skill)) skills (path @ [name])
                      (insert name visited, cycles)"
        from "1.IH"[OF notpath notseen Some]
        have f: "found_from skills (path @ [name]) (insert name visited, cycles) ?st'"
          and t: "targets_found skills (deps_skills (skill_dependencies skill)) (path @ [name]) ?st'"
          by simp_all
        from found_from_expand[OF Some f t]
        have "found_from skills (path @ [name]) (visited, cycles) ?st'" .
        moreover from f have "name \<in> fst ?st'" unfolding found_from_def by auto
        ultimately show ?thesis using notpath notseen Some by (simp add: dfs_expand)
      qed
    qed
  qed
next
  case (2 skills path st)
  show ?case by (simp add: found_from_refl targets_found_def)
next
  case (3 dep deps skills path st)
  show ?case
  proof (intro impI)
    assume p: "path \<noteq> []"
    show "found_from skills path st (dfs_deps (dep # deps) skills path st) \<and>
          targets_found skills (dep # deps) path (dfs_deps (dep # deps) skills path st)"
    proof (cases "map_of skills (dep_name dep) \<noteq> None")
      case True
      let ?st1 = "dfs (dep_name dep) skills path st"
      let ?st' = "dfs_deps deps skills path ?st1"
      from "3.IH"(1)[OF True]
      have f1: "found_from skills (path @ [dep_name dep]) st ?st1"
        and n: "dep_name dep \<in> set path \<or> dep_name dep \<in> fst ?st1"
        by simp_all
      from "3.IH"(2)[OF True] p
      have f2: "found_from skills path ?st1 ?st'" and t: "targets_found skills deps path ?st'"
        by simp_all
      from found_from_step[OF f1 n f2] targets_found_Cons[OF p refl n f2 t] True
      show ?thesis by simp
    next
      case False
      then have "dep_name dep \<notin> registry_keys skills" by (simp add: map_of_keys_iff)
      with "3.IH"(3)[OF False] p False show ?thesis
        by (simp add: targets_found_skip)
    qed
  qed
qed

subsection \<open>Every reported cycle is a cycle of the graph\<close>

text \<open>A list of names in which every name has an edge to the next one.\<close>

fun walk :: "('a \<times> 'a) set \<Rightarrow> 'a list \<Rightarrow> bool" where
  "walk E [] = True"
| "walk E [x] = True"
| "walk E (x # y # zs) = ((x, y) \<in> E \<and> walk E (y # zs))"

text \<open>
  A reported cycle: a start \<open>x\<close>, the rest \<open>ys\<close> of the current path after the first \<open>x\<close>, and
  \<open>x\<close> again; no name twice but the start, every name registered and each with a
  dependency edge to the next.
\<close>

definition simple_cycle :: "('a \<times> 'a) set \<Rightarrow> 'a set \<Rightarrow> 'a list \<Rightarrow> bool" where
  "simple_cycle E K c =
     (\<exists>x ys. c = x # ys @ [x] \<and> distinct (x # ys) \<and> walk E c \<and> set c \<subseteq> K)"

lemma walk_append:
  "walk E (xs @ ys) \<longleftrightarrow>
     walk E xs \<and> walk E ys \<and> (xs \<noteq> [] \<and> ys \<noteq> [] \<longrightarrow> (last xs, hd ys) \<in> E)"
proof (induction E xs rule: walk.induct)
  case (1 E)
  show ?case by simp
next
  case (2 E x)
  show ?case by (cases ys) auto
next
  case (3 E x y zs)
  then show ?case by auto
qed

lemma recorded_cycle_simple:
  assumes x: "x \<in> set path" and d: "distinct path" and w: "walk E path"
    and k: "set path \<subseteq> K" and e: "(last path, x) \<in> E"
  shows "simple_cycle E K (drop (path_index path x) path @ [x])"
proof -
  from path_index_first[OF x] obtain pre post where
    p: "path = pre @ x # post" "path_index path x = length pre" by blast
  then have c: "drop (path_index path x) path @ [x] = x # post @ [x]" by simp
  from p(1) d have 1: "distinct (x # post)" by simp
  from p(1) w have "walk E (x # post)" by (simp add: walk_append)
  moreover from p(1) e have "(last (x # post), x) \<in> E" by simp
  ultimately have 2: "walk E ((x # post) @ [x])" by (subst walk_append) simp
  from p(1) k have 3: "set (x # post @ [x]) \<subseteq> K" by auto
  from 1 2 3 show ?thesis unfolding simple_cycle_def c by auto
qed

lemma all_edgesI:
  "map_of skills s = Some skill \<Longrightarrow> d \<in> set (deps_skills (skill_dependencies skill)) \<Longrightarrow>
   (s, dep_name d) \<in> all_edges skills"
  unfolding all_edges_def by blast

text \<open>
  The path of a traversal is a walk without repetitions through registered skills whose
  last skill has an edge to the name being visited; so what is recorded is a cycle.
\<close>

lemma dfs_cycles_simple:
  "distinct path \<Longrightarrow> walk (all_edges skills) path \<Longrightarrow> set path \<subseteq> registry_keys skills \<Longrightarrow>
   (path \<noteq> [] \<longrightarrow> (last path, n) \<in> all_edges skills) \<Longrightarrow> n \<in> registry_keys skills \<Longrightarrow>
   \<forall>c\<in>set (snd st). simple_cycle (all_edges skills) (registry_keys skills) c \<Longrightarrow>
   \<forall>c\<in>set (snd (dfs n skills path st)). simple_cycle (all_edges skills) (registry_keys skills) c"
  "distinct path \<Longrightarrow> walk (all_edges skills) path \<Longrightarrow> set path \<subseteq> registry_keys skills \<Longrightarrow>
   path \<noteq> [] \<Longrightarrow> (\<forall>d\<in>set ds. (last path, dep_name d) \<in> all_edges skills) \<Longrightarrow>
   \<forall>c\<in>set (snd st). simple_cycle (all_edges skills) (registry_keys skills) c \<Longrightarrow>
   \<forall>c\<in>set (snd (dfs_deps ds skills path st)). simple_cycle (all_edges skills) (registry_keys skills) c"
proof (induction n skills path st and ds skills path st rule: dfs_dfs_deps.induct)
  case (1 name skills path visited cycles)
  note dist = "1.prems"(1) and w = "1.prems"(2) and k = "1.prems"(3) and e = "1.prems"(4)
    and nk = "1.prems"(5) and good = "1.prems"(6)
  show ?case
  proof (cases "name \<in> set path")
    case True
    then have "path \<noteq> []" by auto
    with e have "(last path, name) \<in> all_edges skills" by simp
    from recorded_cycle_simple[OF True dist w k this] good True show ?thesis
      by (simp add: dfs_on_path)
  next
    case notpath: False
    show ?thesis
    proof (cases "name \<in> visited")
      case True
      with notpath good show ?thesis by (simp add: dfs_seen)
    next
      case notseen: False
      show ?thesis
      proof (cases "map_of skills name")
        case None
        with notpath notseen good show ?thesis by (simp add: dfs_absent)
      next
        case (Some skill)
        have d': "distinct (path @ [name])" using dist notpath by simp
        have w': "walk (all_edges skills) (path @ [name])"
          using w e by (simp add: walk_append)
        have k': "set (path @ [name]) \<subseteq> registry_keys skills" using k nk by simp
        have e': "\<forall>d\<in>set (deps_skills (skill_dependencies skill)).
            (last (path @ [name]), dep_name d) \<in> all_edges skills"
          using Some by (auto intro: all_edgesI)
        have g': "\<forall>c\<in>set (snd (insert name visited, cycles)).
            simple_cycle (all_edges skills) (registry_keys skills) c"
          using good by simp
        from "1.IH"[OF notpath notseen Some d' w' k' _ e' g'] notpath notseen Some
        show ?thesis by (simp add: dfs_expand)
      qed
    qed
  qed
next
  case (2 skills path st)
  then show ?case by simp
next
  case (3 dep deps skills path st)
  note dist = "3.prems"(1) and w = "3.prems"(2) and k = "3.prems"(3) and p = "3.prems"(4)
    and e = "3.prems"(5) and good = "3.prems"(6)
  from e have e': "\<forall>d\<in>set deps. (last path, dep_name d) \<in> all_edges skills" by simp
  show ?case
  proof (cases "map_of skills (dep_name dep) \<noteq> None")
    case True
    then have nk: "dep_name dep \<in> registry_keys skills" by (simp add: map_of_keys_iff)
    from e p have "path \<noteq> [] \<longrightarrow> (last path, dep_name dep) \<in> all_edges skills" by simp
    from "3.IH"(1)[OF True dist w k this nk good]
    have "\<forall>c\<in>set (snd (dfs (dep_name dep) skills path st)).
        simple_cycle (all_edges skills) (registry_keys skills) c" .
    from "3.IH"(2)[OF True dist w k p e' this] True show ?thesis by simp
  next
    case False
    from "3.IH"(3)[OF False dist w k p e' good] False show ?thesis by simp
  qed
qed

subsection \<open>The whole scan\<close>

lemma scan_keeps:
  "set acc \<subseteq> set (foldl (\<lambda>cycles name. snd (dfs name skills [] ({}, cycles))) acc names)"
proof (induction names arbitrary: acc)
  case Nil
  show ?case by simp
next
  case (Cons n ns)
  have "set acc \<subseteq> set (snd (dfs n skills [] ({}, acc)))"
    using dfs_finds(1)[of skills "[]" n "({}, acc)"] unfolding found_from_def by simp
  with Cons[of "snd (dfs n skills [] ({}, acc))"] show ?case by auto
qed

lemma scan_includes:
  "a \<in> set names \<Longrightarrow>
   \<exists>acc'. set (snd (dfs a skills [] ({}, acc')))
      \<subseteq> set (foldl (\<lambda>cycles name. snd (dfs name skills [] ({}, cycles))) acc names)"
proof (induction names arbitrary: acc)
  case Nil
  then show ?case by simp
next
  case (Cons n ns)
  show ?case
  proof (cases "a = n")
    case True
    with scan_keeps[of "snd (dfs n skills [] ({}, acc))" skills ns] show ?thesis
      by (intro exI[of _ acc]) simp
  next
    case False
    with Cons.prems have "a \<in> set ns" by simp
    from Cons.IH[OF this, of "snd (dfs n skills [] ({}, acc))"] show ?thesis by simp
  qed
qed

lemma scan_simple:
  "set names \<subseteq> registry_keys skills \<Longrightarrow>
   \<forall>c\<in>set acc. simple_cycle (all_edges skills) (registry_keys skills) c \<Longrightarrow>
   \<forall>c\<in>set (foldl (\<lambda>cycles name. snd (dfs name skills [] ({}, cycles))) acc names).
      simple_cycle (all_edges skills) (registry_keys skills) c"
proof (induction names arbitrary: acc)
  case Nil
  then show ?case by simp
next
  case (Cons n ns)
  from Cons.prems(1) have nk: "n \<in> registry_keys skills" by simp
  have "\<forall>c\<in>set (snd (dfs n skills [] ({}, acc))).
      simple_cycle (all_edges skills) (registry_keys skills) c"
    using dfs_cycles_simple(1)[of "[]" skills n "({}, acc)"] nk Cons.prems(2) by simp
  with Cons.IH[of "snd (dfs n skills [] ({}, acc))"] Cons.prems(1) show ?case by simp
qed

lemma mutual_edge_reported:
  assumes a: "map_of skills a = Some sa" "ea \<in> set (deps_skills (skill_dependencies sa))" "dep_name ea = b"
    and b: "map_of skills b = Some sb" "eb \<in> set (deps_skills (skill_dependencies sb))" "dep_name eb = a"
  shows "\<exists>c\<in>set (snd (dfs a skills [] ({}, acc))). a \<in> set c \<and> b \<in> set c"
proof -
  let ?st' = "dfs a skills [] ({}, acc)"
  from dfs_finds(1)[of skills "[]" a "({}, acc)"]
  have f: "found_from skills [a] ({}, acc) ?st'" and av: "a \<in> fst ?st'" by simp_all
  from a have ab: "(a, b) \<in> all_edges skills" using all_edgesI by blast
  from b have ba: "(b, a) \<in> all_edges skills" using all_edgesI by blast
  from a(1) have ak: "a \<in> registry_keys skills" by (rule map_of_Some_keys)
  from b(1) have bk: "b \<in> registry_keys skills" by (rule map_of_Some_keys)
  from f av ab bk have bv: "b \<in> fst ?st' \<union> set [a]" unfolding found_from_def by auto
  from f have J: "\<exists>c\<in>set (snd ?st'). m \<in> set c \<and> t \<in> set c"
    if "m \<in> fst ?st' - fst ({}, acc)" "(m, t) \<in> all_edges skills" "t \<in> registry_keys skills"
      "t \<in> set [a]" for m t
    using that unfolding found_from_def by blast
  show ?thesis
  proof (cases "b = a")
    case True
    from av have "a \<in> fst ?st' - fst ({}, acc)" by simp
    from J[OF this _ ak, of ] ab True show ?thesis by auto
  next
    case False
    with bv have "b \<in> fst ?st' - fst ({}, acc)" by simp
    from J[OF this ba ak] show ?thesis by auto
  qed
qed

definition mutual_registry :: registry where
  "mutual_registry =
     [(''A'', example_skill ''A'' [optional ''B''] []),
      (''B'', example_skill ''B'' [requires ''A''] [])]"

text \<open>
  C9. When \<open>a\<close> has a dependency edge to \<open>b\<close> and \<open>b\<close> one to \<open>a\<close> (whatever the flags of
  the two edges, whatever else is in the registry), \<open>detect_circular_dependencies\<close> reports
  a cycle that contains both. Every cycle it reports is the part of a traversal path from
  the first occurrence of the revisited skill to the end, followed by that skill again: a
  start, names that are pairwise different and different from the start, and the start
  again, all registered, each with a dependency edge (of any flags) to the next.
\<close>

theorem mutual_dependency_detected:
  "(map_of skills a = Some sa \<and> ea \<in> set (deps_skills (skill_dependencies sa)) \<and> dep_name ea = b \<and>
    map_of skills b = Some sb \<and> eb \<in> set (deps_skills (skill_dependencies sb)) \<and> dep_name eb = a
    \<longrightarrow> (\<exists>c\<in>set (detect_circular_dependencies skills). a \<in> set c \<and> b \<in> set c)) \<and>
   (\<forall>c\<in>set (detect_circular_dependencies skills).
      simple_cycle (all_edges skills) (registry_keys skills) c)"
proof (intro conjI impI)
  assume h: "map_of skills a = Some sa \<and> ea \<in> set (deps_skills (skill_dependencies sa)) \<and> dep_name ea = b \<and>
    map_of skills b = Some sb \<and> eb \<in> set (deps_skills (skill_dependencies sb)) \<and> dep_name eb = a"
  then have "a \<in> set (map fst skills)"
    using map_of_Some_keys[of skills a sa] by (simp add: registry_keys_def)
  from scan_includes[OF this, of skills "[]"] obtain acc' where
    sub: "set (snd (dfs a skills [] ({}, acc'))) \<subseteq> set (detect_circular_dependencies skills)"
    unfolding detect_circular_dependencies_def by blast
  from h mutual_edge_reported[of skills a sa ea b sb eb acc']
  have "\<exists>c\<in>set (snd (dfs a skills [] ({}, acc'))). a \<in> set c \<and> b \<in> set c" by blast
  with sub show "\<exists>c\<in>set (detect_circular_dependencies skills). a \<in> set c \<and> b \<in> set c" by blast
next
  show "\<forall>c\<in>set (detect_circular_dependencies skills).
      simple_cycle (all_edges skills) (registry_keys skills) c"
    unfolding detect_circular_dependencies_def
    by (rule scan_simple) (simp_all add: registry_keys_def)
qed

theorem mutual_dependency_detected_witness:
  "map_of mutual_registry ''A'' = Some (example_skill ''A'' [optional ''B''] []) \<and>
   optional ''B'' \<in> set (deps_skills (skill_dependencies (example_skill ''A'' [optional ''B''] []))) \<and>
   map_of mutual_registry ''B'' = Some (example_skill ''B'' [requires ''A''] []) \<and>
   requires ''A'' \<in> set (deps_skills (skill_dependencies (example_skill ''B'' [requires ''A''] []))) \<and>
   detect_circular_dependencies mutual_registry = [[''A'', ''B'', ''A''], [''B'', ''A'', ''B'']] \<and>
   (\<exists>c\<in>set (detect_circular_dependencies mutual_registry). ''A'' \<in> set c \<and> ''B'' \<in> set c) \<and>
   simple_cycle (all_edges mutual_registry) (registry_keys mutual_registry) [''A'', ''B'', ''A'']"
proof -
  have m: "map_of mutual_registry ''A'' = Some (example_skill ''A'' [optional ''B''] [])"
    "map_of mutual_registry ''B'' = Some (example_skill ''B'' [requires ''A''] [])"
    by (simp_all add: mutual_registry_def)
  have e: "optional ''B'' \<in> set (deps_skills (skill_dependencies (example_skill ''A'' [optional ''B''] [])))"
    "requires ''A'' \<in> set (deps_skills (skill_dependencies (example_skill ''B'' [requires ''A''] [])))"
    by (simp_all add: example_skill_def)
  have n: "dep_name (optional ''B'') = ''B''" "dep_name (requires ''A'') = ''A''"
    by (simp_all add: optional_def requires_def)
  have v: "detect_circular_dependencies mutual_registry = [[''A'', ''B'', ''A''], [''B'', ''A'', ''B'']]"
    by (simp add: detect_circular_dependencies_def dfs.simps mutual_registry_def
          example_skill_def optional_def requires_def)
  note t = mutual_dependency_detected[of mutual_registry "''A''"
      "example_skill ''A'' [optional ''B''] []" "optional ''B''" "''B''"
      "example_skill ''B'' [requires ''A''] []" "requires ''A''"]
  from t m e n have c: "\<exists>c\<in>set (detect_circular_dependencies mutual_registry). ''A'' \<in> set c \<and> ''B'' \<in> set c"
    by blast
  from t v have s: "simple_cycle (all_edges mutual_registry) (registry_keys mutual_registry) [''A'', ''B'', ''A'']"
    by simp
  from m e v c s show ?thesis by blast
qed

section \<open>Validator: validate\_skill\<close>

text \<open>
  \<open>validate_skill\<close> reads the process environment through \<open>os.environ.get(env.name)\<close>; the
  environment is the first argument of the model, a map from variable names to values.
  \<open>not os.environ.get(name)\<close> holds when the variable is absent and when its value is the
  empty string.
\<close>

type_synonym environment = "string \<rightharpoonup> string"

definition env_get_falsy :: "environment \<Rightarrow> string \<Rightarrow> bool" where
  "env_get_falsy environ name = (case environ name of None \<Rightarrow> True | Some v \<Rightarrow> v = [])"

text \<open>A name between single quotes, as the f-strings of the messages write it.\<close>

definition quoted :: "string \<Rightarrow> string" where
  "quoted s = CHR 0x27 # s @ [CHR 0x27]"

text \<open>The three loops of \<open>validate_skill\<close>, each appending to the list \<open>errors\<close>.\<close>

fun validate_deps :: "SkillDependency list \<Rightarrow> string \<Rightarrow> registry \<Rightarrow> string list \<Rightarrow> string list" where
  "validate_deps [] name skills errors = errors"
| "validate_deps (dep # deps) name skills errors =
     validate_deps deps name skills
       (if map_of skills (dep_name dep) = None
        then errors @ [''Missing dependency: '' @ quoted (dep_name dep) @ '' required by '' @ quoted name]
        else errors)"

fun validate_environment :: "EnvironmentRequirement list \<Rightarrow> environment \<Rightarrow> string list \<Rightarrow> string list" where
  "validate_environment [] environ errors = errors"
| "validate_environment (env # envs) environ errors =
     validate_environment envs environ
       (if env_required env
        then (if env_get_falsy environ (env_name env)
              then errors @ [''Missing required environment variable: '' @ env_name env]
              else errors)
        else errors)"

fun validate_tools :: "ToolDefinition list \<Rightarrow> string \<Rightarrow> string list \<Rightarrow> string list" where
  "validate_tools [] name errors = errors"
| "validate_tools (tool # tools) name errors =
     validate_tools tools name
       (let errors1 = (if tool_name tool = []
                       then errors @ [''Tool missing '' @ quoted ''name'' @ '' in skill '' @ quoted name]
                       else errors)
        in if tool_category tool = []
           then errors1 @ [''Tool '' @ quoted (tool_name tool) @ '' missing '' @ quoted ''category''
                             @ '' in skill '' @ quoted name]
           else errors1)"

definition validate_skill :: "environment \<Rightarrow> string \<Rightarrow> registry \<Rightarrow> string list" where
  "validate_skill environ name skills =
     (case map_of skills name of
        None \<Rightarrow> [''Skill '' @ quoted name @ '' not found'']
      | Some skill \<Rightarrow>
          validate_tools (skill_tools skill) name
            (validate_environment (deps_environment (skill_dependencies skill)) environ
               (validate_deps (deps_skills (skill_dependencies skill)) name skills [])))"

text \<open>\<open>check_all_dependencies\<close>: the skills with a non-empty error list, in registry order.\<close>

definition check_all_dependencies :: "environment \<Rightarrow> registry \<Rightarrow> (string \<times> string list) list" where
  "check_all_dependencies environ skills =
     filter (\<lambda>(name, errors). errors \<noteq> [])
       (map (\<lambda>name. (name, validate_skill environ name skills)) (map fst skills))"

lemma validate_deps_set:
  "set (validate_deps deps name skills errors) =
     set errors \<union> {''Missing dependency: '' @ quoted (dep_name dep) @ '' required by '' @ quoted name
                    | dep. dep \<in> set deps \<and> map_of skills (dep_name dep) = None}"
  by (induction deps arbitrary: errors) auto

lemma validate_environment_set:
  "set (validate_environment envs environ errors) =
     set errors \<union> {''Missing required environment variable: '' @ env_name env
                    | env. env \<in> set envs \<and> env_required env \<and> env_get_falsy environ (env_name env)}"
  by (induction envs arbitrary: errors) auto

lemma validate_tools_set:
  "set (validate_tools tools name errors) \<subseteq> set errors \<union> {m. \<exists>rest. m = ''Tool '' @ rest}"
proof (induction tools arbitrary: errors)
  case Nil
  show ?case by simp
next
  case (Cons t ts)
  define errors1 where "errors1 =
    (if tool_name t = []
     then errors @ [''Tool missing '' @ quoted ''name'' @ '' in skill '' @ quoted name]
     else errors)"
  define errors2 where "errors2 =
    (if tool_category t = []
     then errors1 @ [''Tool '' @ quoted (tool_name t) @ '' missing '' @ quoted ''category''
                       @ '' in skill '' @ quoted name]
     else errors1)"
  have "set errors1 \<subseteq> set errors \<union> {m. \<exists>rest. m = ''Tool '' @ rest}"
    unfolding errors1_def by auto
  then have "set errors2 \<subseteq> set errors \<union> {m. \<exists>rest. m = ''Tool '' @ rest}"
    unfolding errors2_def by auto
  moreover have "validate_tools (t # ts) name errors = validate_tools ts name errors2"
    by (simp add: errors1_def errors2_def Let_def)
  ultimately show ?case using Cons[of errors2] by auto
qed

lemma validate_tools_keeps: "set errors \<subseteq> set (validate_tools tools name errors)"
proof (induction tools arbitrary: errors)
  case Nil
  show ?case by simp
next
  case (Cons t ts)
  define errors1 where "errors1 =
    (if tool_name t = []
     then errors @ [''Tool missing '' @ quoted ''name'' @ '' in skill '' @ quoted name]
     else errors)"
  define errors2 where "errors2 =
    (if tool_category t = []
     then errors1 @ [''Tool '' @ quoted (tool_name t) @ '' missing '' @ quoted ''category''
                       @ '' in skill '' @ quoted name]
     else errors1)"
  have "set errors \<subseteq> set errors2" unfolding errors1_def errors2_def by auto
  moreover have "validate_tools (t # ts) name errors = validate_tools ts name errors2"
    by (simp add: errors1_def errors2_def Let_def)
  ultimately show ?case using Cons[of errors2] by auto
qed

definition env_registry :: registry where
  "env_registry =
     [(''A'', (example_skill ''A'' [] [])\<lparr>skill_dependencies :=
         \<lparr>deps_skills = [], deps_packages = [],
          deps_environment = [\<lparr>env_name = ''API_KEY'', env_required = True, env_description = []\<rparr>]\<rparr>\<rparr>)]"

text \<open>
  C3, as the code has it. For a registered skill and a requirement of it that is marked
  required, the message \<open>"Missing required environment variable: <name>"\<close> is among the
  errors exactly when \<open>os.environ.get\<close> of the name is falsy: the variable is absent, or it
  is present with the empty string as its value.
\<close>

theorem missing_environment_variable:
  assumes "map_of skills name = Some skill"
    and "env \<in> set (deps_environment (skill_dependencies skill))"
    and "env_required env"
  shows "(''Missing required environment variable: '' @ env_name env)
            \<in> set (validate_skill environ name skills)
         \<longleftrightarrow> environ (env_name env) = None \<or> environ (env_name env) = Some []"
proof -
  let ?msg = "''Missing required environment variable: '' @ env_name env"
  let ?d = "validate_deps (deps_skills (skill_dependencies skill)) name skills []"
  let ?e = "validate_environment (deps_environment (skill_dependencies skill)) environ ?d"
  have falsy: "env_get_falsy environ (env_name env) \<longleftrightarrow>
      environ (env_name env) = None \<or> environ (env_name env) = Some []"
    by (simp add: env_get_falsy_def split: option.splits)
  have nd: "?msg \<notin> set ?d" by (auto simp: validate_deps_set)
  have ine: "?msg \<in> set ?e \<longleftrightarrow> env_get_falsy environ (env_name env)"
  proof
    assume "?msg \<in> set ?e"
    with nd obtain env' where "env' \<in> set (deps_environment (skill_dependencies skill))"
      "?msg = ''Missing required environment variable: '' @ env_name env'"
      "env_get_falsy environ (env_name env')"
      by (auto simp: validate_environment_set)
    then show "env_get_falsy environ (env_name env)" by simp
  next
    assume "env_get_falsy environ (env_name env)"
    with assms(2,3) show "?msg \<in> set ?e" by (auto simp: validate_environment_set)
  qed
  have "?msg \<in> set (validate_tools (skill_tools skill) name ?e) \<longleftrightarrow> ?msg \<in> set ?e"
  proof
    assume "?msg \<in> set (validate_tools (skill_tools skill) name ?e)"
    with validate_tools_set[of "skill_tools skill" name ?e]
    have "?msg \<in> set ?e \<or> (\<exists>rest. ?msg = ''Tool '' @ rest)" by blast
    then show "?msg \<in> set ?e" by auto
  next
    assume "?msg \<in> set ?e"
    with validate_tools_keeps show "?msg \<in> set (validate_tools (skill_tools skill) name ?e)"
      by blast
  qed
  with ine falsy assms(1) show ?thesis by (simp add: validate_skill_def)
qed

theorem missing_environment_variable_witness:
  "map_of env_registry ''A'' = Some (snd (hd env_registry)) \<and>
   \<lparr>env_name = ''API_KEY'', env_required = True, env_description = []\<rparr>
      \<in> set (deps_environment (skill_dependencies (snd (hd env_registry)))) \<and>
   ''Missing required environment variable: API_KEY'' \<in> set (validate_skill Map.empty ''A'' env_registry) \<and>
   ''Missing required environment variable: API_KEY''
      \<notin> set (validate_skill [''API_KEY'' \<mapsto> ''secret''] ''A'' env_registry)"
proof -
  let ?env = "\<lparr>env_name = ''API_KEY'', env_required = True, env_description = []\<rparr>"
  have m: "map_of env_registry ''A'' = Some (snd (hd env_registry))"
    by (simp add: env_registry_def)
  have e: "?env \<in> set (deps_environment (skill_dependencies (snd (hd env_registry))))"
    by (simp add: env_registry_def example_skill_def)
  have r: "env_required ?env" by simp
  from missing_environment_variable[OF m e r, of Map.empty]
    missing_environment_variable[OF m e r, of "[''API_KEY'' \<mapsto> ''secret'']"] m e
  show ?thesis by simp
qed

theorem missing_environment_variable_counterexample:
  "[''API_KEY'' \<mapsto> []] ''API_KEY'' = Some [] \<and>
   validate_skill [''API_KEY'' \<mapsto> []] ''A'' env_registry
     = [''Missing required environment variable: API_KEY'']"
  by (simp add: validate_skill_def env_registry_def example_skill_def env_get_falsy_def)

section \<open>Skill registry: parse\_skill and collect\_all\_skills\<close>

text \<open>
  One entry of \<open>SKILLS_DIR.iterdir()\<close>: its path, whether it is a directory, and its
  SKILL.md: \<open>None\<close> when the file does not exist, otherwise the frontmatter that
  \<open>parse_frontmatter\<close> reads from its text (the YAML parser is a library, not modelled).
\<close>

record SkillSource =
  source_path :: string
  source_is_dir :: bool
  source_skill_md :: "Frontmatter option"

text \<open>\<open>d.get(key, fallback)\<close> on a key that may be absent.\<close>

definition get_or :: "'a \<Rightarrow> 'a option \<Rightarrow> 'a" where
  "get_or fallback v = (case v of None \<Rightarrow> fallback | Some x \<Rightarrow> x)"

definition parse_parameter :: "ParameterData \<Rightarrow> ToolParameter" where
  "parse_parameter p =
     \<lparr>param_name = get_or [] (pd_name p), param_type = get_or ''string'' (pd_type p),
      param_required = get_or False (pd_required p), param_default = get_or YNull (pd_default p),
      param_description = get_or [] (pd_description p)\<rparr>"

definition parse_tool :: "ToolData \<Rightarrow> ToolDefinition" where
  "parse_tool tool_data =
     \<lparr>tool_name = get_or [] (td_name tool_data),
      tool_category = get_or ''cli'' (td_category tool_data),
      tool_description = get_or [] (td_description tool_data),
      tool_command = get_or [] (td_command tool_data),
      tool_parameters = map parse_parameter (get_or [] (td_parameters tool_data)),
      tool_examples = get_or [] (td_examples tool_data),
      tool_aliases = get_or [] (td_aliases tool_data)\<rparr>"

definition parse_skill_dependency :: "SkillDependencyData \<Rightarrow> SkillDependency" where
  "parse_skill_dependency d =
     \<lparr>dep_name = get_or [] (sdd_name d), dep_required = get_or True (sdd_required d),
      dep_reason = get_or [] (sdd_reason d), dep_auto_load = get_or False (sdd_auto_load d)\<rparr>"

definition parse_package :: "PackageData \<Rightarrow> PackageDependency" where
  "parse_package p =
     \<lparr>pkg_name = get_or [] (pkd_name p), pkg_version = get_or [] (pkd_version p),
      pkg_install = get_or [] (pkd_install p)\<rparr>"

definition parse_environment :: "EnvironmentData \<Rightarrow> EnvironmentRequirement" where
  "parse_environment e =
     \<lparr>env_name = get_or [] (ed_name e), env_required = get_or True (ed_required e),
      env_description = get_or [] (ed_description e)\<rparr>"

text \<open>The branch on \<open>isinstance(deps, dict)\<close>; an absent \<open>"dependencies"\<close> key is the empty dict.\<close>

definition parse_dependencies :: "dependencies_value option \<Rightarrow> Dependencies" where
  "parse_dependencies deps =
     (case get_or (DepsDict \<lparr>dd_skills = None, dd_packages = None, dd_environment = None\<rparr>) deps of
        DepsDict dd \<Rightarrow>
          \<lparr>deps_skills = map parse_skill_dependency (get_or [] (dd_skills dd)),
           deps_packages = map parse_package (get_or [] (dd_packages dd)),
           deps_environment = map parse_environment (get_or [] (dd_environment dd))\<rparr>
      | DepsNotDict v \<Rightarrow> \<lparr>deps_skills = [], deps_packages = [], deps_environment = []\<rparr>)"

text \<open>
  \<open>parse_skill\<close>: \<open>None\<close> without a SKILL.md and when \<open>frontmatter.get("name")\<close> is falsy (the
  key is absent or the name is empty). No other key is tested.
\<close>

definition parse_skill :: "SkillSource \<Rightarrow> SkillMeta option" where
  "parse_skill skill_dir =
     (case source_skill_md skill_dir of
        None \<Rightarrow> None
      | Some frontmatter \<Rightarrow>
          if fm_name frontmatter = None \<or> fm_name frontmatter = Some [] then None
          else Some
            \<lparr>skill_name = get_or [] (fm_name frontmatter),
             skill_description = get_or [] (fm_description frontmatter),
             skill_version = get_or ''1.0.0'' (fm_version frontmatter),
             skill_path = source_path skill_dir,
             skill_tools = map parse_tool (get_or [] (fm_tools frontmatter)),
             skill_dependencies = parse_dependencies (fm_dependencies frontmatter),
             skill_prerequisites = get_or (YDict []) (fm_prerequisites frontmatter),
             skill_performance = get_or (YDict []) (fm_performance frontmatter),
             skill_raw_frontmatter = frontmatter\<rparr>)"

text \<open>
  The loop of \<open>collect_all_skills\<close> over the directory entries, in the order the file
  system lists them; \<open>skills[meta.name] = meta\<close> overwrites an entry of the same name.
\<close>

fun collect_skills_loop :: "SkillSource list \<Rightarrow> registry \<Rightarrow> registry" where
  "collect_skills_loop [] skills = skills"
| "collect_skills_loop (skill_dir # rest) skills =
     collect_skills_loop rest
       (if source_is_dir skill_dir
        then (case parse_skill skill_dir of
                None \<Rightarrow> skills
              | Some meta \<Rightarrow> AList.update (skill_name meta) meta skills)
        else skills)"

definition collect_all_skills :: "SkillSource list \<Rightarrow> registry" where
  "collect_all_skills entries = collect_skills_loop entries []"

subsection \<open>What the registry holds\<close>

lemma parse_skill_name:
  "parse_skill src = Some meta \<Longrightarrow>
   \<exists>fm. source_skill_md src = Some fm \<and> fm_name fm = Some (skill_name meta) \<and> skill_name meta \<noteq> []"
  by (auto simp: parse_skill_def get_or_def split: option.splits if_splits)

lemma parse_skill_named:
  "source_skill_md src = Some fm \<Longrightarrow> fm_name fm = Some n \<Longrightarrow> n \<noteq> [] \<Longrightarrow>
   \<exists>meta. parse_skill src = Some meta \<and> skill_name meta = n \<and>
          skill_description meta = get_or [] (fm_description fm)"
  by (simp add: parse_skill_def get_or_def)

lemma collect_skills_loop_keys:
  "fst ` set (collect_skills_loop entries skills) =
     fst ` set skills \<union>
     {skill_name meta | src meta. src \<in> set entries \<and> source_is_dir src \<and> parse_skill src = Some meta}"
proof (induction entries arbitrary: skills)
  case Nil
  show ?case by simp
next
  case (Cons e es)
  show ?case
  proof (cases "source_is_dir e")
    case False
    then show ?thesis by (auto simp: Cons.IH)
  next
    case True
    show ?thesis
    proof (cases "parse_skill e")
      case None
      with True show ?thesis by (auto simp: Cons.IH)
    next
      case (Some meta)
      with True show ?thesis by (auto simp: Cons.IH update_keys_set)
    qed
  qed
qed

text \<open>
  The keys of the registry are exactly the non-empty names of the directories that have a
  SKILL.md with a name: a source without a name is left out, silently, and a source with a
  name is registered under it, whether or not it has a description.
\<close>

lemma collect_all_skills_keys:
  "registry_keys (collect_all_skills entries) =
     {n. n \<noteq> [] \<and> (\<exists>src fm. src \<in> set entries \<and> source_is_dir src \<and>
            source_skill_md src = Some fm \<and> fm_name fm = Some n)}"
proof -
  have "{skill_name meta | src meta. src \<in> set entries \<and> source_is_dir src \<and> parse_skill src = Some meta}
      = {n. n \<noteq> [] \<and> (\<exists>src fm. src \<in> set entries \<and> source_is_dir src \<and>
            source_skill_md src = Some fm \<and> fm_name fm = Some n)}"
  proof (intro set_eqI iffI)
    fix n
    assume "n \<in> {skill_name meta | src meta. src \<in> set entries \<and> source_is_dir src \<and> parse_skill src = Some meta}"
    then obtain src meta where "src \<in> set entries" "source_is_dir src" "parse_skill src = Some meta"
      "n = skill_name meta" by blast
    note s = this
    from parse_skill_name[OF s(3)] obtain fm where
      "source_skill_md src = Some fm" "fm_name fm = Some (skill_name meta)" "skill_name meta \<noteq> []"
      by blast
    with s show "n \<in> {n. n \<noteq> [] \<and> (\<exists>src fm. src \<in> set entries \<and> source_is_dir src \<and>
            source_skill_md src = Some fm \<and> fm_name fm = Some n)}" by auto
  next
    fix n
    assume "n \<in> {n. n \<noteq> [] \<and> (\<exists>src fm. src \<in> set entries \<and> source_is_dir src \<and>
            source_skill_md src = Some fm \<and> fm_name fm = Some n)}"
    then obtain src fm where s: "src \<in> set entries" "source_is_dir src"
      "source_skill_md src = Some fm" "fm_name fm = Some n" "n \<noteq> []" by blast
    from parse_skill_named[OF s(3,4,5)] obtain meta where
      "parse_skill src = Some meta" "skill_name meta = n" by blast
    with s(1,2)
    show "n \<in> {skill_name meta | src meta. src \<in> set entries \<and> source_is_dir src \<and> parse_skill src = Some meta}"
      by auto
  qed
  then show ?thesis
    by (simp add: collect_all_skills_def registry_keys_def collect_skills_loop_keys)
qed

definition undescribed_source :: SkillSource where
  "undescribed_source =
     \<lparr>source_path = ''skills/web-search'', source_is_dir = True,
      source_skill_md = Some (empty_frontmatter\<lparr>fm_name := Some ''web-search''\<rparr>)\<rparr>"

text \<open>
  C2 at a source that has a name and no description: \<open>collect_all_skills\<close> registers it,
  with the empty string as its description.
\<close>

theorem undescribed_skill_registered:
  "fm_description (the (source_skill_md undescribed_source)) = None \<and>
   map (\<lambda>(name, meta). (name, skill_name meta, skill_description meta))
     (collect_all_skills [undescribed_source]) = [(''web-search'', ''web-search'', [])]"
  by (simp add: collect_all_skills_def undescribed_source_def parse_skill_def
        empty_frontmatter_def get_or_def)

end
